theory Spec2Isabelle
  imports Complex_Main "HOL-Library.Log_Nat" "HOL-Library.Multiset" "HOL-Library.Sublist"
    "HOL-Library.List_Lexorder" "HOL-Library.Char_ord"
begin

unbundle bit_operations_syntax

section \<open>Errors\<close>

text \<open>
  Every \<open>throw\<close> of the configuration module and every exception a built-in raises
  there is one constructor:
  \<^item> \<open>ExpectedAddress\<close>: \<open>address\<close> throws \<open>Error("expected address, got ...")\<close>
    (the specification's \<open>InvalidAddress\<close>);
  \<^item> \<open>PercentageGreater\<close>, \<open>PercentageLess\<close>: the two throws of \<open>percentage\<close>
    (together the specification's \<open>OutOfRange\<close>);
  \<^item> \<open>RangeError\<close>: \<open>BigInt(x)\<close> on a number that is not an integer, and
    \<open>a ** b\<close> on BigInts with negative \<open>b\<close>;
  \<^item> \<open>SyntaxError\<close>: \<open>BigInt(s)\<close> on a string that is not an integer literal.
\<close>

datatype error = ExpectedAddress | PercentageGreater | PercentageLess | RangeError | SyntaxError

definition OutOfRange :: "error \<Rightarrow> bool" where
  "OutOfRange e = (e = PercentageGreater \<or> e = PercentageLess)"

definition InvalidAddress :: "error \<Rightarrow> bool" where
  "InvalidAddress e = (e = ExpectedAddress)"

text \<open>Sequencing of computations that may throw: the first exception wins.\<close>

definition bind_result :: "error + 'a \<Rightarrow> ('a \<Rightarrow> error + 'b) \<Rightarrow> error + 'b" where
  "bind_result r f = (case r of Inl e \<Rightarrow> Inl e | Inr v \<Rightarrow> f v)"

section \<open>The \<open>number\<close> type: IEEE 754 binary64\<close>

text \<open>
  A TypeScript \<open>number\<close> is a double. \<open>Finite m e\<close> stands for the value \<open>m * 2^e\<close>.
  The two zeros are not told apart: nothing in the module observes the sign of zero
  (\<open>-0 < 0\<close> is false, \<open>BigInt(-0)\<close> is \<open>0n\<close>).
\<close>

datatype number = NaN | PosInfinity | NegInfinity | Finite int int

fun number_value :: "number \<Rightarrow> real" where
  "number_value (Finite m e) = of_int m * 2 powi e"
| "number_value _ = 0"

text \<open>The finite values that are doubles: 53 bits of mantissa, exponents of binary64.\<close>

fun is_double :: "number \<Rightarrow> bool" where
  "is_double (Finite m e) = (\<bar>m\<bar> < 2 ^ 53 \<and> - 1074 \<le> e \<and> bitlen \<bar>m\<bar> + e \<le> 1024)"
| "is_double _ = True"

text \<open>
  Rounding of the exact value \<open>M * 2^E\<close> to the nearest double, ties to even, overflow to
  infinity: the mode of every arithmetic operation of the language.
\<close>

definition round_double :: "int \<Rightarrow> int \<Rightarrow> number" where
  "round_double M E =
     (let a = \<bar>M\<bar>; k = max (bitlen a - 53) (- 1074 - E) in
      if M = 0 then Finite 0 0
      else if k \<le> 0 then
        (if bitlen a + E > 1024 then (if M < 0 then NegInfinity else PosInfinity)
         else Finite M E)
      else
        (let lo = a div 2 ^ nat k; r = a mod 2 ^ nat k; half = 2 ^ nat (k - 1);
             q = (if r > half \<or> (r = half \<and> odd lo) then lo + 1 else lo)
         in if bitlen q + (E + k) > 1024 then (if M < 0 then NegInfinity else PosInfinity)
            else if q = 2 ^ 53 then Finite (sgn M * 2 ^ 52) (E + k + 1)
            else Finite (sgn M * q) (E + k)))"

text \<open>The operator \<open>*\<close> on numbers.\<close>

fun number_times :: "number \<Rightarrow> number \<Rightarrow> number" where
  "number_times (Finite m1 e1) (Finite m2 e2) = round_double (m1 * m2) (e1 + e2)"
| "number_times NaN _ = NaN"
| "number_times _ NaN = NaN"
| "number_times (Finite m e) PosInfinity =
     (if m = 0 then NaN else if m < 0 then NegInfinity else PosInfinity)"
| "number_times (Finite m e) NegInfinity =
     (if m = 0 then NaN else if m < 0 then PosInfinity else NegInfinity)"
| "number_times PosInfinity (Finite m e) =
     (if m = 0 then NaN else if m < 0 then NegInfinity else PosInfinity)"
| "number_times NegInfinity (Finite m e) =
     (if m = 0 then NaN else if m < 0 then PosInfinity else NegInfinity)"
| "number_times PosInfinity PosInfinity = PosInfinity"
| "number_times PosInfinity NegInfinity = NegInfinity"
| "number_times NegInfinity PosInfinity = NegInfinity"
| "number_times NegInfinity NegInfinity = PosInfinity"

text \<open>The operator \<open><\<close> on numbers (\<open>a > b\<close> is \<open>b < a\<close>); false when a side is NaN.\<close>

fun number_less :: "number \<Rightarrow> number \<Rightarrow> bool" where
  "number_less (Finite m1 e1) (Finite m2 e2) =
     (let e = min e1 e2 in m1 * 2 ^ nat (e1 - e) < m2 * 2 ^ nat (e2 - e))"
| "number_less NaN _ = False"
| "number_less _ NaN = False"
| "number_less NegInfinity NegInfinity = False"
| "number_less NegInfinity _ = True"
| "number_less _ NegInfinity = False"
| "number_less PosInfinity _ = False"
| "number_less _ PosInfinity = True"

text \<open>\<open>Math.floor\<close>.\<close>

fun Math_floor :: "number \<Rightarrow> number" where
  "Math_floor (Finite m e) = (if e \<ge> 0 then Finite m e else Finite (m div 2 ^ nat (- e)) 0)"
| "Math_floor n = n"

text \<open>\<open>BigInt(n)\<close> on a number: the exact integer, a RangeError when \<open>n\<close> is not one.\<close>

fun BigInt_number :: "number \<Rightarrow> error + int" where
  "BigInt_number (Finite m e) =
     (if e \<ge> 0 then Inr (m * 2 ^ nat e)
      else if m mod 2 ^ nat (- e) = 0 then Inr (m div 2 ^ nat (- e))
      else Inl RangeError)"
| "BigInt_number _ = Inl RangeError"

text \<open>The literals \<open>1.0\<close>, \<open>0\<close> and \<open>1e18\<close> (\<open>10^18 = 5^18 * 2^18\<close> is a double).\<close>

definition one_number :: number where
  "one_number = Finite 1 0"

definition zero_number :: number where
  "zero_number = Finite 0 0"

definition number_1e18 :: number where
  "number_1e18 = Finite 3814697265625 18"

section \<open>The configuration module\<close>

subsection \<open>Scalars\<close>

text \<open>\<open>floor(n) = BigInt(Math.floor(n))\<close>.\<close>

definition floor_number :: "number \<Rightarrow> error + int" where
  "floor_number n = BigInt_number (Math_floor n)"

text \<open>\<open>number(n) = floor(Number(n))\<close>; \<open>Number\<close> of a number is the number.\<close>

definition number_cfg :: "number \<Rightarrow> error + int" where
  "number_cfg n = floor_number n"

text \<open>\<open>percentage(n, checkRange = true)\<close>.\<close>

definition percentage :: "number \<Rightarrow> bool \<Rightarrow> error + int" where
  "percentage n checkRange =
     (if checkRange \<and> number_less one_number n then Inl PercentageGreater
      else if checkRange \<and> number_less n zero_number then Inl PercentageLess
      else floor_number (number_times n number_1e18))"

subsection \<open>Strings, addresses and \<open>BigInt\<close> of a string\<close>

text \<open>
  A string is a list of code units; the model's \<open>char\<close> covers the code units below 256,
  which is enough for every character the regular expression of \<open>isAddress\<close> or the
  grammar of integer literals mentions.
\<close>

definition digit_of :: "char \<Rightarrow> nat option" where
  "digit_of c =
     (let n = (of_char c :: nat) in
      if 48 \<le> n \<and> n \<le> 57 then Some (n - 48)
      else if 97 \<le> n \<and> n \<le> 102 then Some (n - 87)
      else if 65 \<le> n \<and> n \<le> 70 then Some (n - 55)
      else None)"

definition is_digit :: "nat \<Rightarrow> char \<Rightarrow> bool" where
  "is_digit base c = (case digit_of c of None \<Rightarrow> False | Some d \<Rightarrow> d < base)"

definition digits_value :: "nat \<Rightarrow> string \<Rightarrow> int" where
  "digits_value base ds = foldl (\<lambda>acc c. acc * int base + int (the (digit_of c))) 0 ds"

text \<open>\<open>a.match(/^0x[a-fA-F0-9]{40}$/) !== null\<close>\<close>

definition isAddress :: "string \<Rightarrow> bool" where
  "isAddress a = (take 2 a = ''0x'' \<and> length (drop 2 a) = 40 \<and> list_all (is_digit 16) (drop 2 a))"

definition address :: "string \<Rightarrow> error + string" where
  "address a = (if \<not> isAddress a then Inl ExpectedAddress else Inr a)"

text \<open>
  \<open>BigInt(s)\<close> on a string (StringToBigInt of the language): white space is trimmed, the
  empty string is \<open>0n\<close>, a literal is decimal with an optional sign or has one of the
  prefixes \<open>0x\<close>, \<open>0o\<close>, \<open>0b\<close> (either case, no sign); anything else is a SyntaxError.
\<close>

definition is_white_space :: "char \<Rightarrow> bool" where
  "is_white_space c = ((of_char c :: nat) \<in> {9, 10, 11, 12, 13, 32, 160})"

definition trim :: "string \<Rightarrow> string" where
  "trim s = rev (dropWhile is_white_space (rev (dropWhile is_white_space s)))"

definition integer_literal :: "nat \<Rightarrow> string \<Rightarrow> error + int" where
  "integer_literal base ds =
     (if ds \<noteq> [] \<and> list_all (is_digit base) ds then Inr (digits_value base ds)
      else Inl SyntaxError)"

definition BigInt_string :: "string \<Rightarrow> error + int" where
  "BigInt_string s =
     (let t = trim s in
      if t = [] then Inr 0
      else if take 2 t \<in> {''0x'', ''0X''} then integer_literal 16 (drop 2 t)
      else if take 2 t \<in> {''0o'', ''0O''} then integer_literal 8 (drop 2 t)
      else if take 2 t \<in> {''0b'', ''0B''} then integer_literal 2 (drop 2 t)
      else if take 1 t = ''+'' then integer_literal 10 (drop 1 t)
      else if take 1 t = ''-'' then map_sum id uminus (integer_literal 10 (drop 1 t))
      else integer_literal 10 t)"

subsection \<open>BigInt arithmetic\<close>

text \<open>\<open>a / b\<close> truncates towards zero (the divisors below are never zero).\<close>

definition BigInt_div :: "int \<Rightarrow> int \<Rightarrow> int" where
  "BigInt_div a b = sgn a * sgn b * (\<bar>a\<bar> div \<bar>b\<bar>)"

text \<open>\<open>a ** b\<close> throws a RangeError on a negative exponent.\<close>

definition BigInt_pow :: "int \<Rightarrow> int \<Rightarrow> error + int" where
  "BigInt_pow a b = (if b < 0 then Inl RangeError else Inr (a ^ nat b))"

subsection \<open>Packing an asset configuration\<close>

record NetworkAssetConfiguration =
  priceFeed :: string
  decimals :: number
  borrowCF :: number
  liquidateCF :: number
  liquidationFactor :: number
  supplyCap :: number

record AssetConfigStruct =
  word_a :: int
  word_b :: int

text \<open>\<open>(10n**18n) / (10n**4n)\<close>\<close>

definition descale :: int where
  "descale = BigInt_div (10 ^ 18) (10 ^ 4)"

text \<open>
  \<open>packAssetConfig\<close>, statement by statement; the operands of the returned object are
  evaluated left to right, \<open>word_a\<close> before \<open>word_b\<close>.
\<close>

definition packAssetConfig :: "string \<Rightarrow> NetworkAssetConfiguration \<Rightarrow> error + AssetConfigStruct" where
  "packAssetConfig assetAddress assetConfig =
     bind_result (address (priceFeed assetConfig)) (\<lambda>priceFeedAddress.
     bind_result (BigInt_number (decimals assetConfig)) (\<lambda>decimals'.
     bind_result (percentage (borrowCF assetConfig) True) (\<lambda>borrowCF'.
     bind_result (percentage (liquidateCF assetConfig) True) (\<lambda>liquidateCF'.
     bind_result (percentage (liquidationFactor assetConfig) True) (\<lambda>liquidationFactor'.
     bind_result (number_cfg (supplyCap assetConfig)) (\<lambda>supplyCap'.
     bind_result (BigInt_string assetAddress) (\<lambda>asset.
     bind_result (BigInt_string priceFeedAddress) (\<lambda>feed.
     bind_result (BigInt_pow 10 decimals') (\<lambda>unit.
       Inr \<lparr> word_a =
               asset OR push_bit 160 (BigInt_div borrowCF' descale)
                     OR push_bit 176 (BigInt_div liquidateCF' descale)
                     OR push_bit 192 (BigInt_div liquidationFactor' descale),
             word_b =
               feed OR push_bit 160 decimals'
                    OR push_bit 168 (BigInt_div supplyCap' unit) \<rparr>)))))))))"

section \<open>The migration constraint\<close>

subsection \<open>Enumeration of subsets\<close>

text \<open>
  The generator \<open>subsets(array, offset = 0)\<close>, as the list of the arrays it yields, in
  order. One pass of its \<open>while\<close> loop takes \<open>first = array[offset++]\<close> and yields every
  array of \<open>subsets(array, offset)\<close> with \<open>first\<close> pushed at its end; the passes that
  follow, and the final \<open>yield []\<close>, are what the generator started at the incremented
  offset yields. Every yielded array is a fresh object.
\<close>

function subsets :: "'a list \<Rightarrow> nat \<Rightarrow> 'a list list" where
  "subsets array offset =
     (if offset < length array
      then (let first = array ! offset
            in map (\<lambda>subset. subset @ [first]) (subsets array (Suc offset))
               @ subsets array (Suc offset))
      else [[]])"
  by pat_completeness auto
termination
  by (relation "measure (\<lambda>(array, offset). length array - offset)") auto

subsection \<open>Migrations and contexts\<close>

text \<open>
  A migration has a name and two actions. Both act on the deployment manager (state \<open>'s\<close>)
  and may throw (\<open>'x\<close>); \<open>prepare\<close> returns the artifact (\<open>'a\<close>) that \<open>enact\<close> receives.
\<close>

record ('s, 'a, 'x) Actions =
  prepare :: "'s \<Rightarrow> 'x + ('a \<times> 's)"
  enact :: "'s \<Rightarrow> 'a \<Rightarrow> 'x + 's"

record ('s, 'a, 'x) Migration =
  name :: string
  actions :: "('s, 'a, 'x) Actions"

text \<open>
  The context: its deployment manager, and whether \<open>getGovernor()\<close> and \<open>getProposer()\<close>
  throw (their values are not used).
\<close>

record ('s, 'x) CometContext =
  deploymentManager :: 's
  getGovernor :: "'x option"
  getProposer :: "'x option"

text \<open>
  What a run does, in order: the calls of \<open>prepare\<close> and \<open>enact\<close> (recorded when the call
  is made) and the three \<open>debug\<close> lines (recorded when the line is reached).
\<close>

datatype event =
    DebugRunning "string list"
  | Prepare string
  | DebugPrepared string
  | Enact string
  | DebugEnacted string

subsection \<open>Sorting by name\<close>

text \<open>
  \<open>migrationList.sort((a, b) => a.name.localeCompare(b.name))\<close>. The comparison of the
  platform is a parameter \<open>localeCompare\<close> (negative, zero or positive). \<open>Array.sort\<close> is
  stable; for a consistent comparison every stable sort returns the list computed here.
\<close>

fun insert_sorted :: "(string \<Rightarrow> string \<Rightarrow> int) \<Rightarrow> ('s, 'a, 'x) Migration
    \<Rightarrow> ('s, 'a, 'x) Migration list \<Rightarrow> ('s, 'a, 'x) Migration list" where
  "insert_sorted localeCompare a [] = [a]"
| "insert_sorted localeCompare a (b # bs) =
     (if localeCompare (name a) (name b) \<le> 0 then a # b # bs
      else b # insert_sorted localeCompare a bs)"

definition sort_migrations :: "(string \<Rightarrow> string \<Rightarrow> int) \<Rightarrow> ('s, 'a, 'x) Migration list
    \<Rightarrow> ('s, 'a, 'x) Migration list" where
  "sort_migrations localeCompare migrationList = foldr (insert_sorted localeCompare) migrationList []"

subsection \<open>Solutions\<close>

text \<open>
  The \<open>for (let migration of migrationList)\<close> loop of a solution. \<open>stringify\<close> is
  \<open>JSON.stringify\<close> on the artifact, evaluated for the debug line between the two calls: it
  throws on some values (\<open>Some x\<close>).
\<close>

fun apply_migrations :: "('a \<Rightarrow> 'x option) \<Rightarrow> ('s, 'a, 'x) Migration list \<Rightarrow> 's
    \<Rightarrow> event list \<times> ('x + 's)" where
  "apply_migrations stringify [] dm = ([], Inr dm)"
| "apply_migrations stringify (migration # rest) dm =
     (case prepare (actions migration) dm of
        Inl x \<Rightarrow> ([Prepare (name migration)], Inl x)
      | Inr (artifact, dm1) \<Rightarrow>
          (case stringify artifact of
             Some x \<Rightarrow> ([Prepare (name migration)], Inl x)
           | None \<Rightarrow>
               (case enact (actions migration) dm1 artifact of
                  Inl x \<Rightarrow>
                    ([Prepare (name migration), DebugPrepared (name migration),
                      Enact (name migration)], Inl x)
                | Inr dm2 \<Rightarrow>
                    (let (events, result) = apply_migrations stringify rest dm2
                     in ([Prepare (name migration), DebugPrepared (name migration),
                          Enact (name migration), DebugEnacted (name migration)] @ events,
                         result)))))"

text \<open>
  The body of the function pushed on \<open>solutions\<close>, for the \<open>migrationList\<close> it captured.
\<close>

definition solution :: "(string \<Rightarrow> string \<Rightarrow> int) \<Rightarrow> ('a \<Rightarrow> 'x option)
    \<Rightarrow> ('s, 'a, 'x) Migration list \<Rightarrow> ('s, 'x) CometContext
    \<Rightarrow> event list \<times> ('x + ('s, 'x) CometContext)" where
  "solution localeCompare stringify migrationList ctx =
     (case getGovernor ctx of
        Some x \<Rightarrow> ([], Inl x)
      | None \<Rightarrow>
          (case getProposer ctx of
             Some x \<Rightarrow> ([], Inl x)
           | None \<Rightarrow>
               (let sorted = sort_migrations localeCompare migrationList;
                    (events, result) = apply_migrations stringify sorted (deploymentManager ctx)
                in (DebugRunning (map name sorted) # events,
                    case result of
                      Inl x \<Rightarrow> Inl x
                    | Inr dm \<Rightarrow> Inr (ctx\<lparr>deploymentManager := dm\<rparr>)))))"

text \<open>
  \<open>solve\<close>: one solution per yielded subset, pushed in the order of the enumeration. A
  solution is represented by the \<open>migrationList\<close> its function captured; running it is
  \<open>solution\<close> above. The catalog is what \<open>getMigrations\<close> returned.
\<close>

definition solve :: "'m list \<Rightarrow> 'm list list" where
  "solve migrations =
     foldl (\<lambda>solutions migrationList. solutions @ [migrationList]) [] (subsets migrations 0)"

text \<open>
  The same enumeration by recursion on the part of the array from the offset on; used to
  reason about \<open>subsets\<close>.
\<close>

fun suffix_subsets :: "'a list \<Rightarrow> 'a list list" where
  "suffix_subsets [] = [[]]"
| "suffix_subsets (x # xs) = map (\<lambda>subset. subset @ [x]) (suffix_subsets xs) @ suffix_subsets xs"

subsection \<open>Vocabulary of the properties\<close>




text \<open>The names of the migrations whose \<open>prepare\<close> was called, in the order of the calls.\<close>

fun executed :: "event list \<Rightarrow> string list" where
  "executed [] = []"
| "executed (Prepare n # es) = n # executed es"
| "executed (e # es) = executed es"

text \<open>The migration an event is a call of.\<close>

fun invoked :: "event \<Rightarrow> string option" where
  "invoked (Prepare n) = Some n"
| "invoked (Enact n) = Some n"
| "invoked e = None"

text \<open>
  A migration fails with \<open>x\<close> on a deployment manager: its \<open>prepare\<close> throws \<open>x\<close>, or the
  artifact cannot be printed, or its \<open>enact\<close> throws \<open>x\<close>.
\<close>

definition fails_with :: "('a \<Rightarrow> 'x option) \<Rightarrow> ('s, 'a, 'x) Migration \<Rightarrow> 's \<Rightarrow> 'x \<Rightarrow> bool" where
  "fails_with stringify migration dm x =
     (case prepare (actions migration) dm of
        Inl y \<Rightarrow> y = x
      | Inr (artifact, dm1) \<Rightarrow>
          (case stringify artifact of
             Some y \<Rightarrow> y = x
           | None \<Rightarrow>
               (case enact (actions migration) dm1 artifact of
                  Inl y \<Rightarrow> y = x
                | Inr dm2 \<Rightarrow> False)))"




text \<open>
  Concrete instances for the examples: the comparison of strings by code units, a
  migration that counts its enactments in the deployment manager, one whose \<open>enact\<close>
  throws, and a context whose getters return.
\<close>

definition code_unit_compare :: "string \<Rightarrow> string \<Rightarrow> int" where
  "code_unit_compare a b = (if a < b then - 1 else if a = b then 0 else 1)"

definition counting_migration :: "string \<Rightarrow> (nat, unit, string) Migration" where
  "counting_migration n =
     \<lparr>name = n, actions = \<lparr>prepare = (\<lambda>dm. Inr ((), dm)), enact = (\<lambda>dm artifact. Inr (Suc dm))\<rparr>\<rparr>"

definition failing_migration :: "string \<Rightarrow> string \<Rightarrow> (nat, unit, string) Migration" where
  "failing_migration n x =
     \<lparr>name = n, actions = \<lparr>prepare = (\<lambda>dm. Inr ((), dm)), enact = (\<lambda>dm artifact. Inl x)\<rparr>\<rparr>"

definition fresh_context :: "(nat, string) CometContext" where
  "fresh_context = \<lparr>deploymentManager = 0, getGovernor = None, getProposer = None\<rparr>"

text \<open>
  The percentages \<open>percentage\<close> accepts, those it rejects, and the input records the
  properties of \<open>packAssetConfig\<close> are about. A NaN is neither in range nor out of range.
\<close>

fun in_range :: "number \<Rightarrow> bool" where
  "in_range (Finite m e) =
     (\<not> number_less one_number (Finite m e) \<and> \<not> number_less (Finite m e) zero_number)"
| "in_range n = False"

definition out_of_range :: "number \<Rightarrow> bool" where
  "out_of_range n = (number_less one_number n \<or> number_less n zero_number)"

text \<open>A supply cap: a finite number that is not negative.\<close>

fun is_count :: "number \<Rightarrow> bool" where
  "is_count (Finite m e) = (0 \<le> m)"
| "is_count n = False"

text \<open>The decimals: a number that is an integer and not negative.\<close>

definition is_decimals :: "number \<Rightarrow> bool" where
  "is_decimals n = (case BigInt_number n of Inl x \<Rightarrow> False | Inr d \<Rightarrow> 0 \<le> d)"

definition valid_input :: "string \<Rightarrow> NetworkAssetConfiguration \<Rightarrow> bool" where
  "valid_input assetAddress assetConfig =
     (isAddress assetAddress \<and> isAddress (priceFeed assetConfig)
      \<and> in_range (borrowCF assetConfig) \<and> in_range (liquidateCF assetConfig)
      \<and> in_range (liquidationFactor assetConfig)
      \<and> is_count (supplyCap assetConfig) \<and> is_decimals (decimals assetConfig))"

text \<open>
  An input for the examples: the doubles nearest \<open>0.8\<close>, \<open>0.85\<close> and \<open>0.95\<close>, six
  decimals, and a supply cap of \<open>10^12\<close> raw units.
\<close>

definition example_asset :: string where
  "example_asset = ''0xABCDEF0000000000000000000000000000000001''"

definition example_config :: NetworkAssetConfiguration where
  "example_config =
     \<lparr>priceFeed = ''0x00000000000000000000000000000000000000ff'',
      decimals = Finite 6 0,
      borrowCF = Finite 7205759403792794 (- 53),
      liquidateCF = Finite 7656119366529843 (- 53),
      liquidationFactor = Finite 8556839292003942 (- 53),
      supplyCap = Finite 1000000000000 0\<rparr>"



subsection \<open>Unpacking\<close>

text \<open>
  Modelled from the spec: \<open>unpack(PackedConfig) -> fields\<close> is not in the configuration
  module (the words are decoded by their consumer). By sections 3 and 4.1 a packed
  configuration is two 256-bit words, each the union of its fields at their offsets, and
  unpacking a field shifts its window down, masks it, and undoes the descaling: the
  address in bits 0-159, the three 16-bit factors at 160, 176 and 192 of \<open>word_a\<close>,
  multiplied by \<open>10^14\<close>; the price feed in bits 0-159, the decimals in the 8 bits at 160
  and the supply cap in the 88 bits from 168 to the end of \<open>word_b\<close>, multiplied by
  \<open>10^decimals\<close>.
\<close>

record Fields =
  asset_address :: int
  borrow_factor :: int
  liquidate_factor :: int
  liquidation_factor :: int
  price_feed_address :: int
  token_decimals :: int
  supply_cap :: int

definition unpack :: "AssetConfigStruct \<Rightarrow> Fields" where
  "unpack w =
     \<lparr>asset_address = take_bit 160 (word_a w),
      borrow_factor = take_bit 16 (drop_bit 160 (word_a w)) * 10 ^ 14,
      liquidate_factor = take_bit 16 (drop_bit 176 (word_a w)) * 10 ^ 14,
      liquidation_factor = take_bit 16 (drop_bit 192 (word_a w)) * 10 ^ 14,
      price_feed_address = take_bit 160 (word_b w),
      token_decimals = take_bit 8 (drop_bit 160 (word_b w)),
      supply_cap =
        take_bit 88 (drop_bit 168 (word_b w)) * 10 ^ nat (take_bit 8 (drop_bit 160 (word_b w)))\<rparr>"

text \<open>
  The decimals fit their 8-bit window and the supply cap, in whole tokens, fits the 88
  bits above it.
\<close>

definition fits_word_b :: "NetworkAssetConfiguration \<Rightarrow> bool" where
  "fits_word_b assetConfig =
     (case (BigInt_number (decimals assetConfig), number_cfg (supplyCap assetConfig)) of
        (Inr d, Inr c) \<Rightarrow> d < 2 ^ 8 \<and> BigInt_div c (10 ^ nat d) < 2 ^ 88
      | _ \<Rightarrow> False)"

section \<open>Verified properties\<close>

subsection \<open>Numbers: comparison, floor and rounding\<close>

lemma powi_split: "(2::real) powi (a + int n) = 2 powi a * 2 ^ n"
  by (simp add: power_int_add)

lemma powi_ge: "b \<le> a \<Longrightarrow> (2::real) powi a = 2 powi b * 2 ^ nat (a - b)"
  using powi_split [of b "nat (a - b)"] by simp

lemma number_less_value:
  "number_less (Finite m1 e1) (Finite m2 e2)
     \<longleftrightarrow> number_value (Finite m1 e1) < number_value (Finite m2 e2)"
proof -
  define e where "e = min e1 e2"
  have e: "e \<le> e1" "e \<le> e2" by (simp_all add: e_def)
  have "number_value (Finite m1 e1) = of_int (m1 * 2 ^ nat (e1 - e)) * 2 powi e"
    and "number_value (Finite m2 e2) = of_int (m2 * 2 ^ nat (e2 - e)) * 2 powi e"
    using powi_ge [OF e(1)] powi_ge [OF e(2)] by simp_all
  then have "number_value (Finite m1 e1) < number_value (Finite m2 e2)
     \<longleftrightarrow> real_of_int (m1 * 2 ^ nat (e1 - e)) < real_of_int (m2 * 2 ^ nat (e2 - e))"
    by (simp only: mult_less_cancel_right_pos zero_less_power_int zero_less_numeral)
  also have "\<dots> \<longleftrightarrow> m1 * 2 ^ nat (e1 - e) < m2 * 2 ^ nat (e2 - e)"
    by (simp only: of_int_less_iff)
  finally show ?thesis
    by (simp add: e_def Let_def)
qed

lemma floor_number_value: "floor_number (Finite m e) = Inr \<lfloor>number_value (Finite m e)\<rfloor>"
proof (cases "0 \<le> e")
  case True
  then have "number_value (Finite m e) = of_int (m * 2 ^ nat e)"
    by (simp add: power_int_nonneg_exp)
  then have "\<lfloor>number_value (Finite m e)\<rfloor> = m * 2 ^ nat e"
    by (simp only: floor_of_int)
  with True show ?thesis
    by (simp add: floor_number_def)
next
  case False
  then have "(2::real) powi e = 1 / 2 ^ nat (- e)"
    by (simp add: power_int_def field_simps)
  then have "number_value (Finite m e) = real_of_int m / real_of_int (2 ^ nat (- e))"
    by simp
  then have "\<lfloor>number_value (Finite m e)\<rfloor> = m div 2 ^ nat (- e)"
    by (simp only: floor_divide_of_int_eq)
  with False show ?thesis
    by (simp add: floor_number_def)
qed

lemma powi_less_exp: "(2::real) powi a < 2 powi b \<Longrightarrow> a < b"
  using power_int_increasing [of b a "2::real"] by (cases "a < b") auto

lemma bitlen_powi:
  assumes "0 < m"
  shows "2 powi (bitlen m - 1) \<le> real_of_int m" and "real_of_int m < 2 powi (bitlen m)"
proof -
  have b: "2 ^ nat (bitlen m - 1) \<le> m" "m < 2 ^ nat (bitlen m)"
    using bitlen_bounds [OF assms] by simp_all
  have pos: "1 \<le> bitlen m"
    using assms bitlen_eq_zero_iff [of m] bitlen_nonneg [of m] by linarith
  have "real_of_int (2 ^ nat (bitlen m - 1)) \<le> real_of_int m"
    using b(1) by (simp only: of_int_le_iff)
  then show "2 powi (bitlen m - 1) \<le> real_of_int m"
    using pos by (simp add: power_int_nonneg_exp)
  have "real_of_int m < real_of_int (2 ^ nat (bitlen m))"
    using b(2) by (simp only: of_int_less_iff)
  then show "real_of_int m < 2 powi (bitlen m)"
    using pos by (simp add: power_int_nonneg_exp)
qed

text \<open>A positive value below \<open>2^1024\<close> does not overflow.\<close>

lemma no_overflow:
  assumes "0 < q" and "real_of_int q * 2 powi g < 2 powi 1024"
  shows "bitlen q + g \<le> 1024"
proof -
  have "2 powi (bitlen q - 1 + g) = 2 powi (bitlen q - 1) * (2::real) powi g"
    by (simp add: power_int_add)
  also have "\<dots> \<le> real_of_int q * 2 powi g"
    using bitlen_powi(1) [OF assms(1)] by (simp add: mult_right_mono)
  finally have "(2::real) powi (bitlen q - 1 + g) < 2 powi 1024"
    using assms(2) by simp
  from powi_less_exp [OF this] show ?thesis by simp
qed

lemma double_below_overflow:
  assumes "0 < T" and "bitlen T + s \<le> 1024"
  shows "real_of_int T * 2 powi s < 2 powi 1024"
proof -
  have "real_of_int T * 2 powi s < 2 powi (bitlen T) * 2 powi s"
    using bitlen_powi(2) [OF assms(1)] by (simp add: mult_strict_right_mono)
  also have "\<dots> = 2 powi (bitlen T + s)"
    by (simp add: power_int_add)
  also have "\<dots> \<le> 2 powi 1024"
    using assms(2) by (intro power_int_increasing) simp_all
  finally show ?thesis .
qed

text \<open>The shape of a rounded positive value.\<close>

lemma round_double_unfold:
  assumes "0 < M" and "\<not> max (bitlen M - 53) (- 1074 - E) \<le> 0"
  shows "round_double M E =
     (let k = max (bitlen M - 53) (- 1074 - E);
          lo = M div 2 ^ nat k; r = M mod 2 ^ nat k; half = 2 ^ nat (k - 1);
          q = (if r > half \<or> (r = half \<and> odd lo) then lo + 1 else lo)
      in if bitlen q + (E + k) > 1024 then PosInfinity
         else if q = 2 ^ 53 then Finite (2 ^ 52) (E + k + 1)
         else Finite q (E + k))"
proof -
  have "sgn M = 1" "\<bar>M\<bar> = M" "\<not> M < 0" "M \<noteq> 0"
    using assms(1) by simp_all
  then show ?thesis
    unfolding round_double_def using assms(2) by (simp only: Let_def if_False mult_1)
qed

lemma round_double_pos:
  assumes "0 < M"
  obtains (exact) "max (bitlen M - 53) (- 1074 - E) \<le> 0"
      and "round_double M E = (if bitlen M + E > 1024 then PosInfinity else Finite M E)"
  | (rounded) k q where "k = max (bitlen M - 53) (- 1074 - E)" and "0 < k"
      and "M div 2 ^ nat k \<le> q" and "q \<le> M div 2 ^ nat k + 1"
      and "M mod 2 ^ nat k = 0 \<longrightarrow> q = M div 2 ^ nat k"
      and "2 * (q * 2 ^ nat k - M) \<le> 2 ^ nat k" and "2 * (M - q * 2 ^ nat k) \<le> 2 ^ nat k"
      and "round_double M E =
             (if bitlen q + (E + k) > 1024 then PosInfinity
              else if q = 2 ^ 53 then Finite (2 ^ 52) (E + k + 1)
              else Finite q (E + k))"
proof (cases "max (bitlen M - 53) (- 1074 - E) \<le> 0")
  case True
  with assms show ?thesis
    by (intro exact) (simp_all add: round_double_def Let_def)
next
  case False
  define k where "k = max (bitlen M - 53) (- 1074 - E)"
  define lo where "lo = M div 2 ^ nat k"
  define r where "r = M mod 2 ^ nat k"
  define q where "q = (if r > 2 ^ nat (k - 1) \<or> (r = 2 ^ nat (k - 1) \<and> odd lo) then lo + 1 else lo)"
  have k: "0 < k" using False unfolding k_def by (simp only: not_le)
  then have half: "(2::int) ^ nat k = 2 * 2 ^ nat (k - 1)"
    by (metis Suc_nat_eq_nat_zadd1 add.commute diff_add_cancel power_Suc zle_diff1_eq)
  have M: "M = lo * 2 ^ nat k + r"
    unfolding lo_def r_def by (rule div_mult_mod_eq [symmetric])
  have r: "0 \<le> r" "r < 2 ^ nat k"
    by (simp_all add: r_def)
  show ?thesis
  proof (rule rounded [of k q])
    show "k = max (bitlen M - 53) (- 1074 - E)" by (rule k_def)
    show "0 < k" by (rule k)
    show "M div 2 ^ nat k \<le> q" "q \<le> M div 2 ^ nat k + 1"
      by (simp_all add: q_def lo_def)
    show "M mod 2 ^ nat k = 0 \<longrightarrow> q = M div 2 ^ nat k"
      using k by (auto simp: q_def lo_def r_def)
    show "2 * (q * 2 ^ nat k - M) \<le> 2 ^ nat k"
      using r half M by (auto simp: q_def algebra_simps)
    show "2 * (M - q * 2 ^ nat k) \<le> 2 ^ nat k"
      using r half M by (auto simp: q_def algebra_simps)
    show "round_double M E =
             (if bitlen q + (E + k) > 1024 then PosInfinity
              else if q = 2 ^ 53 then Finite (2 ^ 52) (E + k + 1)
              else Finite q (E + k))"
      unfolding round_double_unfold [OF assms False] Let_def q_def lo_def r_def k_def [symmetric]
      by (rule refl)
  qed
qed

text \<open>Rounding a positive value never passes a double above it, nor overflows below one.\<close>

lemma round_double_le:
  assumes M: "0 < M" and T: "0 < T" "T < 2 ^ 53" and s: "- 1074 \<le> s" "s \<le> 971"
    and le: "real_of_int M * 2 powi E \<le> real_of_int T * 2 powi s"
  obtains q g where "round_double M E = Finite q g" and "0 \<le> q"
    and "real_of_int q * 2 powi g \<le> real_of_int T * 2 powi s"
    and "\<bar>real_of_int q * 2 powi g - real_of_int M * 2 powi E\<bar> \<le> 2 powi (s - 1)"
    and "\<bar>real_of_int q * 2 powi g - real_of_int M * 2 powi E\<bar> \<le> 2 powi (g - 1)"
proof -
  let ?B = "real_of_int T * 2 powi s"
  have bT: "bitlen T \<le> 53"
  proof -
    have "(2::real) powi (bitlen T - 1) \<le> real_of_int T"
      using T(1) by (rule bitlen_powi(1))
    also have "\<dots> < 2 powi 53"
      using T(2) by (simp flip: of_int_less_iff)
    finally show ?thesis
      using powi_less_exp by fastforce
  qed
  have B: "?B < 2 powi 1024"
    using T(1) by (rule double_below_overflow) (use bT s(2) in linarith)
  from M show ?thesis
  proof (cases rule: round_double_pos [of M E])
    case exact
    have "real_of_int M * 2 powi E < 2 powi 1024"
      using le B by simp
    from no_overflow [OF M this] exact(2)
    have r: "round_double M E = Finite M E" by simp
    show ?thesis
      by (rule that [OF r]) (use M le in simp_all)
  next
    case (rounded k q)
    define g where "g = E + k"
    have pg: "(2::real) powi g = 2 powi E * 2 ^ nat k"
      using powi_split [of E "nat k"] rounded(2) by (simp add: g_def)
    have gs: "g \<le> s"
    proof (cases "bitlen M - 53 \<le> - 1074 - E")
      case True
      then show ?thesis using rounded(1) s(1) by (simp add: g_def)
    next
      case False
      then have k: "k = bitlen M - 53" using rounded(1) by simp
      have "(2::real) powi (bitlen M - 1 + E) = 2 powi (bitlen M - 1) * 2 powi E"
        by (simp add: power_int_add)
      also have "\<dots> \<le> real_of_int M * 2 powi E"
        using bitlen_powi(1) [OF M] by (simp add: mult_right_mono)
      also have "\<dots> \<le> ?B" by (rule le)
      also have "\<dots> < 2 ^ 53 * 2 powi s"
        using T(2) by (simp add: mult_strict_right_mono)
      also have "\<dots> = 2 powi (s + 53)"
        by (simp add: power_int_add)
      finally have "bitlen M - 1 + E < s + 53"
        by (rule powi_less_exp)
      then show ?thesis by (simp add: g_def k)
    qed
    define T' where "T' = T * 2 ^ nat (s - g)"
    have B': "?B = real_of_int T' * 2 powi g"
      using powi_ge [OF gs] by (simp add: T'_def)
    have "real_of_int M * 2 powi E \<le> real_of_int (T' * 2 ^ nat k) * 2 powi E"
      using le by (simp add: B' pg mult_ac)
    then have "real_of_int M \<le> real_of_int (T' * 2 ^ nat k)"
      by (simp only: mult_le_cancel_right_pos zero_less_power_int zero_less_numeral)
    then have MT: "M \<le> T' * 2 ^ nat k"
      by (simp only: of_int_le_iff)
    have qT: "q \<le> T'"
    proof (cases "M mod 2 ^ nat k = 0")
      case True
      then have "q * 2 ^ nat k = M"
        using rounded(5) by (simp add: mod_eq_0_iff_dvd)
      with MT have "q * 2 ^ nat k \<le> T' * 2 ^ nat k" by simp
      then show ?thesis by simp
    next
      case False
      have "0 \<le> M mod 2 ^ nat k" by simp
      with False have "0 < M mod 2 ^ nat k" by linarith
      moreover have "M = M div 2 ^ nat k * 2 ^ nat k + M mod 2 ^ nat k"
        by (rule div_mult_mod_eq [symmetric])
      ultimately have "M div 2 ^ nat k * 2 ^ nat k < T' * 2 ^ nat k"
        using MT by linarith
      then have "M div 2 ^ nat k < T'" by simp
      with rounded(4) show ?thesis by linarith
    qed
    have q0: "0 \<le> q"
    proof -
      have "0 \<le> M div 2 ^ nat k"
        using M by (simp add: pos_imp_zdiv_nonneg_iff)
      with rounded(3) show ?thesis by linarith
    qed
    have val: "real_of_int q * 2 powi g \<le> ?B"
      using qT by (simp add: B' mult_right_mono)
    have g1024: "g \<le> 1024"
    proof -
      from s(2) gs show ?thesis by linarith
    qed
    have ov: "bitlen q + g \<le> 1024"
    proof (cases "q = 0")
      case True
      with g1024 show ?thesis by simp
    next
      case False
      with q0 have "0 < q" by simp
      moreover have "real_of_int q * 2 powi g < 2 powi 1024"
        using val B by simp
      ultimately show ?thesis by (rule no_overflow)
    qed
    have errg: "\<bar>real_of_int q * 2 powi g - real_of_int M * 2 powi E\<bar> \<le> 2 powi (g - 1)"
    proof -
      have eq: "real_of_int q * 2 powi g - real_of_int M * 2 powi E
          = real_of_int (q * 2 ^ nat k - M) * 2 powi E"
        by (simp add: pg algebra_simps)
      have bound: "\<bar>real_of_int (q * 2 ^ nat k - M)\<bar> \<le> 2 ^ nat k / 2"
      proof -
        have "2 * \<bar>q * 2 ^ nat k - M\<bar> \<le> 2 ^ nat k"
          using rounded(6,7) by (auto simp: abs_if)
        then have "real_of_int (2 * \<bar>q * 2 ^ nat k - M\<bar>) \<le> real_of_int (2 ^ nat k)"
          by (simp only: of_int_le_iff)
        then show ?thesis by simp
      qed
      have half: "(2::real) powi (g - 1) = 2 ^ nat k / 2 * 2 powi E"
        using power_int_add [of "2::real" g "-1"] by (simp add: pg)
      have "\<bar>real_of_int q * 2 powi g - real_of_int M * 2 powi E\<bar>
          = \<bar>real_of_int (q * 2 ^ nat k - M)\<bar> * 2 powi E"
        unfolding eq by (simp add: abs_mult)
      also have "\<dots> \<le> 2 ^ nat k / 2 * 2 powi E"
        using bound by (intro mult_right_mono) simp_all
      finally show ?thesis
        unfolding half .
    qed
    have err: "\<bar>real_of_int q * 2 powi g - real_of_int M * 2 powi E\<bar> \<le> 2 powi (s - 1)"
    proof -
      have "(2::real) powi (g - 1) \<le> 2 powi (s - 1)"
        using gs by (intro power_int_increasing) simp_all
      with errg show ?thesis by linarith
    qed
    show ?thesis
    proof (cases "q = 2 ^ 53")
      case True
      have r: "round_double M E = Finite (2 ^ 52) (g + 1)"
        using rounded(8) ov True by (simp add: g_def)
      have v: "real_of_int (2 ^ 52) * 2 powi (g + 1) = real_of_int q * 2 powi g"
        using powi_split [of g 1] by (simp add: True)
      have "(2::real) powi (g - 1) \<le> 2 powi g"
        by (intro power_int_increasing) simp_all
      with errg have "\<bar>real_of_int q * 2 powi g - real_of_int M * 2 powi E\<bar> \<le> 2 powi g"
        by linarith
      then show ?thesis
        by (intro that [OF r]) (use val v err in simp_all)
    next
      case False
      have r: "round_double M E = Finite q g"
        using rounded(8) ov False by (simp add: g_def)
      show ?thesis
        by (rule that [OF r q0 val err errg])
    qed
  qed
qed

lemma in_range_value:
  assumes "\<not> number_less one_number (Finite m e)" and "\<not> number_less (Finite m e) zero_number"
  shows "0 \<le> m" and "number_value (Finite m e) \<le> 1" and "0 \<le> number_value (Finite m e)"
proof -
  from assms(2) have "\<not> number_value (Finite m e) < number_value (Finite 0 0)"
    unfolding zero_number_def number_less_value .
  then show v: "0 \<le> number_value (Finite m e)" by simp
  have "(0::real) < 2 powi e" by simp
  with v have "0 \<le> real_of_int m"
    by (simp add: zero_le_mult_iff not_le [symmetric] del: zero_less_power_int)
  then show "0 \<le> m" by simp
  from assms(1) have "\<not> number_value (Finite 1 0) < number_value (Finite m e)"
    unfolding one_number_def number_less_value .
  then show "number_value (Finite m e) \<le> 1" by simp
qed

lemma percentage_in_range:
  assumes "\<not> number_less one_number (Finite m e)" and "\<not> number_less (Finite m e) zero_number"
  obtains v where "percentage (Finite m e) True = Inr v" and "0 \<le> v" and "v \<le> 10 ^ 18"
    and "\<bar>real_of_int v - number_value (Finite m e) * 10 ^ 18\<bar> \<le> 64"
proof (cases "m = 0")
  case True
  have "percentage (Finite m e) True = Inr 0"
    using assms by (simp add: percentage_def True number_1e18_def round_double_def floor_number_def)
  then show ?thesis
    by (rule that) (simp_all add: True)
next
  case False
  note v = in_range_value [OF assms]
  with False have m: "0 < m" by simp
  let ?M = "m * 3814697265625" and ?E = "e + 18"
  let ?x = "real_of_int ?M * 2 powi ?E"
  have x: "?x = number_value (Finite m e) * 10 ^ 18"
    using powi_split [of e 18] by simp
  have B: "real_of_int 7812500000000000 * 2 powi 7 = 10 ^ 18"
    by simp
  have le: "?x \<le> real_of_int 7812500000000000 * 2 powi 7"
    unfolding x B using v(2) by simp
  have M: "0 < ?M" using m by simp
  from M _ _ _ _ le obtain q g where r: "round_double ?M ?E = Finite q g" and q: "0 \<le> q"
    and val: "real_of_int q * 2 powi g \<le> real_of_int 7812500000000000 * 2 powi 7"
    and err: "\<bar>real_of_int q * 2 powi g - ?x\<bar> \<le> 2 powi (7 - 1)"
    and errg: "\<bar>real_of_int q * 2 powi g - ?x\<bar> \<le> 2 powi (g - 1)"
    by (rule round_double_le) simp_all
  let ?y = "real_of_int q * 2 powi g"
  define w where "w = \<lfloor>?y\<rfloor>"
  have p: "percentage (Finite m e) True = Inr w"
    using assms by (simp add: percentage_def number_1e18_def r floor_number_value w_def)
  have y0: "0 \<le> ?y" using q by simp
  have w0: "0 \<le> w" using y0 by (simp add: w_def)
  have "w \<le> \<lfloor>(10::real) ^ 18\<rfloor>"
    unfolding w_def using val unfolding B by (rule floor_mono)
  then have w18: "w \<le> 10 ^ 18" by simp
  have werr: "\<bar>real_of_int w - ?x\<bar> \<le> 64"
  proof (cases "0 \<le> g")
    case True
    then have "?y = real_of_int (q * 2 ^ nat g)"
      by (simp add: power_int_nonneg_exp)
    then have "real_of_int w = ?y"
      unfolding w_def by (simp only: floor_of_int)
    with err show ?thesis by simp
  next
    case False
    then have "(2::real) powi (g - 1) \<le> 2 powi (- 2)"
      by (intro power_int_increasing) simp_all
    with errg have "\<bar>?y - ?x\<bar> \<le> 1 / 4"
      by (simp add: power_int_minus field_simps)
    moreover have "real_of_int w \<le> ?y" "?y < real_of_int w + 1"
      unfolding w_def by linarith+
    ultimately show ?thesis by linarith
  qed
  from werr have "\<bar>real_of_int w - number_value (Finite m e) * 10 ^ 18\<bar> \<le> 64"
    unfolding x .
  with p w0 w18 show ?thesis
    by (rule that)
qed

subsection \<open>Addresses, packing and bit fields\<close>

lemma digit_not_white_space: "is_digit base c \<Longrightarrow> \<not> is_white_space c"
  by (auto simp: is_digit_def digit_of_def is_white_space_def Let_def split: if_splits option.splits)

lemma trim_id:
  assumes "s \<noteq> []" and "\<not> is_white_space (hd s)" and "\<not> is_white_space (last s)"
  shows "trim s = s"
proof -
  have "dropWhile is_white_space s = s"
    using assms(1,2) by (cases s) simp_all
  moreover have "dropWhile is_white_space (rev s) = rev s"
    using assms(1,3) by (cases "rev s") (simp_all add: hd_rev [symmetric])
  ultimately show ?thesis by (simp add: trim_def)
qed

lemma digits_value_bound:
  assumes "list_all (is_digit base) ds" and "0 \<le> acc"
  shows "0 \<le> foldl (\<lambda>acc c. acc * int base + int (the (digit_of c))) acc ds
    \<and> foldl (\<lambda>acc c. acc * int base + int (the (digit_of c))) acc ds
           < (acc + 1) * int base ^ length ds"
  using assms
proof (induction ds arbitrary: acc)
  case Nil
  then show ?case by simp
next
  case (Cons c ds)
  from Cons.prems(1) obtain d where d: "digit_of c = Some d" "d < base"
    by (auto simp: is_digit_def split: option.splits)
  let ?a = "acc * int base + int d"
  have a0: "0 \<le> ?a" using Cons.prems(2) by simp
  have rest: "list_all (is_digit base) ds" using Cons.prems(1) by simp
  have "?a + 1 \<le> (acc + 1) * int base"
    using d(2) by (simp add: algebra_simps)
  then have "(?a + 1) * int base ^ length ds \<le> (acc + 1) * int base * int base ^ length ds"
    by (intro mult_right_mono) simp_all
  with Cons.IH [OF rest a0] show ?case by (simp add: d mult_ac)
qed

lemma BigInt_string_address:
  assumes "isAddress a"
  obtains v where "BigInt_string a = Inr v" and "0 \<le> v" and "v < 2 ^ 160"
proof -
  let ?ds = "drop 2 a"
  from assms have t: "take 2 a = ''0x''" and len: "length ?ds = 40"
    and hex: "list_all (is_digit 16) ?ds"
    by (simp_all add: isAddress_def)
  have a: "a = ''0x'' @ ?ds"
    using t append_take_drop_id [of 2 a] by simp
  have ne: "a \<noteq> []" and "?ds \<noteq> []" using len by auto
  have "hd a = CHR ''0''" using a by (metis append_Cons hd_Cons_tl list.sel(1) list.discI)
  then have h: "\<not> is_white_space (hd a)"
    by (simp add: is_white_space_def)
  have "last a = last ?ds"
    using \<open>?ds \<noteq> []\<close> by simp
  moreover have "last ?ds \<in> set ?ds"
    using \<open>?ds \<noteq> []\<close> by (rule last_in_set)
  ultimately have "is_digit 16 (last a)"
    using hex by (simp add: list_all_iff)
  then have l: "\<not> is_white_space (last a)"
    by (rule digit_not_white_space)
  have tr: "trim a = a" using ne h l by (rule trim_id)
  have v: "BigInt_string a = Inr (digits_value 16 ?ds)"
    using t hex \<open>?ds \<noteq> []\<close> ne by (simp add: BigInt_string_def tr integer_literal_def)
  have "0 \<le> digits_value 16 ?ds \<and> digits_value 16 ?ds < (0 + 1) * int 16 ^ length ?ds"
    unfolding digits_value_def by (rule digits_value_bound [OF hex]) simp
  moreover have "(int 16) ^ 40 = 2 ^ 160" by simp
  ultimately show ?thesis
    using v len by (intro that [of "digits_value 16 ?ds"]) simp_all
qed

lemma descale_eq: "descale = 10 ^ 14"
  by (simp add: descale_def BigInt_div_def)

lemma BigInt_div_nonneg: "0 \<le> a \<Longrightarrow> 0 < b \<Longrightarrow> BigInt_div a b = a div b"
  by (cases "a = 0") (simp_all add: BigInt_div_def)

lemma percentage_out_of_range:
  assumes "out_of_range n"
  shows "percentage n True = (if number_less one_number n then Inl PercentageGreater else Inl PercentageLess)"
  using assms by (auto simp: out_of_range_def percentage_def)

lemma percentage_NaN: "percentage NaN True = Inl RangeError"
  by (simp add: percentage_def one_number_def zero_number_def number_1e18_def floor_number_def)

lemma in_or_out_of_range: "n \<noteq> NaN \<Longrightarrow> in_range n \<or> out_of_range n"
  by (cases n) (auto simp: out_of_range_def one_number_def zero_number_def)

lemma percentage_in_range':
  assumes "in_range n"
  obtains v where "percentage n True = Inr v" and "0 \<le> v" and "v \<le> 10 ^ 18"
    and "\<bar>real_of_int v - number_value n * 10 ^ 18\<bar> \<le> 64"
proof -
  from assms obtain m e where n: "n = Finite m e"
    by (cases n) simp_all
  from assms have "\<not> number_less one_number (Finite m e)" "\<not> number_less (Finite m e) zero_number"
    by (simp_all add: n)
  then show ?thesis
    using that unfolding n by (rule percentage_in_range)
qed

lemma number_cfg_count:
  assumes "is_count n"
  obtains c where "number_cfg n = Inr c" and "0 \<le> c" and "c = \<lfloor>number_value n\<rfloor>"
proof -
  from assms obtain m e where n: "n = Finite m e" and m: "0 \<le> m"
    by (cases n) simp_all
  have "0 \<le> number_value n" using m by (simp add: n)
  then have "0 \<le> \<lfloor>number_value n\<rfloor>" by simp
  then show ?thesis
    using that [of "\<lfloor>number_value n\<rfloor>"] by (simp add: number_cfg_def n floor_number_value)
qed

lemma packAssetConfig_success:
  assumes "isAddress (priceFeed cfg)" and "BigInt_number (decimals cfg) = Inr d" and "0 \<le> d"
    and "percentage (borrowCF cfg) True = Inr b" and "percentage (liquidateCF cfg) True = Inr l"
    and "percentage (liquidationFactor cfg) True = Inr f"
    and "number_cfg (supplyCap cfg) = Inr c"
    and "BigInt_string a = Inr asset" and "BigInt_string (priceFeed cfg) = Inr feed"
  shows "packAssetConfig a cfg =
           Inr \<lparr>word_a = asset OR push_bit 160 (BigInt_div b descale)
                          OR push_bit 176 (BigInt_div l descale)
                          OR push_bit 192 (BigInt_div f descale),
                word_b = feed OR push_bit 160 d OR push_bit 168 (BigInt_div c (10 ^ nat d))\<rparr>"
  using assms by (simp add: packAssetConfig_def bind_result_def address_def BigInt_pow_def)

lemma packAssetConfig_Inr:
  assumes "packAssetConfig a cfg = Inr w"
  obtains d b l f c asset feed where "isAddress (priceFeed cfg)"
    and "BigInt_number (decimals cfg) = Inr d" and "0 \<le> d"
    and "percentage (borrowCF cfg) True = Inr b" and "percentage (liquidateCF cfg) True = Inr l"
    and "percentage (liquidationFactor cfg) True = Inr f"
    and "number_cfg (supplyCap cfg) = Inr c"
    and "BigInt_string a = Inr asset" and "BigInt_string (priceFeed cfg) = Inr feed"
    and "w = \<lparr>word_a = asset OR push_bit 160 (BigInt_div b descale)
                          OR push_bit 176 (BigInt_div l descale)
                          OR push_bit 192 (BigInt_div f descale),
               word_b = feed OR push_bit 160 d OR push_bit 168 (BigInt_div c (10 ^ nat d))\<rparr>"
proof -
  from assms have pf: "isAddress (priceFeed cfg)"
    by (auto simp: packAssetConfig_def bind_result_def address_def split: if_splits)
  from assms pf obtain d where d: "BigInt_number (decimals cfg) = Inr d"
    by (cases "BigInt_number (decimals cfg)") (simp_all add: packAssetConfig_def bind_result_def address_def)
  from assms pf d obtain b where b: "percentage (borrowCF cfg) True = Inr b"
    by (cases "percentage (borrowCF cfg) True") (simp_all add: packAssetConfig_def bind_result_def address_def)
  from assms pf d b obtain l where l: "percentage (liquidateCF cfg) True = Inr l"
    by (cases "percentage (liquidateCF cfg) True") (simp_all add: packAssetConfig_def bind_result_def address_def)
  from assms pf d b l obtain f where f: "percentage (liquidationFactor cfg) True = Inr f"
    by (cases "percentage (liquidationFactor cfg) True") (simp_all add: packAssetConfig_def bind_result_def address_def)
  from assms pf d b l f obtain c where c: "number_cfg (supplyCap cfg) = Inr c"
    by (cases "number_cfg (supplyCap cfg)") (simp_all add: packAssetConfig_def bind_result_def address_def)
  from assms pf d b l f c obtain asset where asset: "BigInt_string a = Inr asset"
    by (cases "BigInt_string a") (simp_all add: packAssetConfig_def bind_result_def address_def)
  from assms pf d b l f c asset obtain feed where feed: "BigInt_string (priceFeed cfg) = Inr feed"
    by (cases "BigInt_string (priceFeed cfg)") (simp_all add: packAssetConfig_def bind_result_def address_def)
  from assms pf d b l f c asset feed have d0: "0 \<le> d"
    by (cases "d < 0") (simp_all add: packAssetConfig_def bind_result_def address_def BigInt_pow_def)
  from packAssetConfig_success [OF pf d d0 b l f c asset feed] assms
  show ?thesis
    by (intro that [OF pf d d0 b l f c asset feed]) simp
qed

text \<open>Fields in disjoint windows of a word are recovered by shifting and masking.\<close>

lemma bit_below:
  fixes x :: int
  assumes "0 \<le> x" and "x < 2 ^ n" and "bit x i"
  shows "i < n"
proof -
  have "take_bit n x = x" using assms(1,2) by (simp add: take_bit_int_eq_self)
  then have "bit (take_bit n x) i" using assms(3) by simp
  then show ?thesis by (simp add: bit_take_bit_iff)
qed

lemma word_a_fields:
  fixes asset b l f :: int
  assumes "0 \<le> asset" "asset < 2 ^ 160" "0 \<le> b" "b < 2 ^ 16" "0 \<le> l" "l < 2 ^ 16"
    and "0 \<le> f" "f < 2 ^ 16"
  defines "w \<equiv> asset OR push_bit 160 b OR push_bit 176 l OR push_bit 192 f"
  shows "take_bit 160 w = asset"
    and "take_bit 16 (drop_bit 160 w) = b"
    and "take_bit 16 (drop_bit 176 w) = l"
    and "take_bit 16 (drop_bit 192 w) = f"
    and "drop_bit 160 w = b OR push_bit 16 l OR push_bit 32 f"
    and "0 \<le> w" and "w < 2 ^ 208"
proof -
  note below = bit_below [OF assms(1,2)] bit_below [OF assms(3,4)] bit_below [OF assms(5,6)]
    bit_below [OF assms(7,8)]
  show "take_bit 160 w = asset"
    unfolding w_def by (rule bit_eqI) (auto simp: bit_simps dest: below)
  show "take_bit 16 (drop_bit 160 w) = b"
    unfolding w_def by (rule bit_eqI) (auto simp: bit_simps dest: below)
  show "take_bit 16 (drop_bit 176 w) = l"
    unfolding w_def by (rule bit_eqI) (auto simp: bit_simps dest: below)
  show "take_bit 16 (drop_bit 192 w) = f"
    unfolding w_def by (rule bit_eqI) (auto simp: bit_simps dest: below)
  show "drop_bit 160 w = b OR push_bit 16 l OR push_bit 32 f"
    unfolding w_def by (rule bit_eqI) (auto simp: bit_simps dest: below)
  show "0 \<le> w"
    unfolding w_def using assms by simp
  have "take_bit 208 w = w"
    unfolding w_def by (rule bit_eqI) (auto simp: bit_simps dest: below)
  then show "w < 2 ^ 208"
    by (metis take_bit_int_less_exp)
qed

lemma valid_input_fields:
  assumes "valid_input a cfg"
  obtains asset feed d b l f c where
      "BigInt_string a = Inr asset" "0 \<le> asset" "asset < 2 ^ 160"
      "BigInt_string (priceFeed cfg) = Inr feed" "0 \<le> feed" "feed < 2 ^ 160"
      "BigInt_number (decimals cfg) = Inr d" "0 \<le> d"
      "percentage (borrowCF cfg) True = Inr b" "0 \<le> b" "b \<le> 10 ^ 18"
      "percentage (liquidateCF cfg) True = Inr l" "0 \<le> l" "l \<le> 10 ^ 18"
      "percentage (liquidationFactor cfg) True = Inr f" "0 \<le> f" "f \<le> 10 ^ 18"
      "number_cfg (supplyCap cfg) = Inr c" "0 \<le> c" "c = \<lfloor>number_value (supplyCap cfg)\<rfloor>"
proof -
  from assms have a: "isAddress a" and pf: "isAddress (priceFeed cfg)"
    and r: "in_range (borrowCF cfg)" "in_range (liquidateCF cfg)" "in_range (liquidationFactor cfg)"
    and cnt: "is_count (supplyCap cfg)" and dec: "is_decimals (decimals cfg)"
    by (simp_all add: valid_input_def)
  from a obtain asset where 1: "BigInt_string a = Inr asset" "0 \<le> asset" "asset < 2 ^ 160"
    by (rule BigInt_string_address)
  from pf obtain feed where 2: "BigInt_string (priceFeed cfg) = Inr feed" "0 \<le> feed" "feed < 2 ^ 160"
    by (rule BigInt_string_address)
  from dec obtain d where 3: "BigInt_number (decimals cfg) = Inr d" "0 \<le> d"
    by (auto simp: is_decimals_def split: sum.splits)
  from r(1) obtain b where 4: "percentage (borrowCF cfg) True = Inr b" "0 \<le> b" "b \<le> 10 ^ 18"
    by (rule percentage_in_range')
  from r(2) obtain l where 5: "percentage (liquidateCF cfg) True = Inr l" "0 \<le> l" "l \<le> 10 ^ 18"
    by (rule percentage_in_range')
  from r(3) obtain f where 6: "percentage (liquidationFactor cfg) True = Inr f" "0 \<le> f" "f \<le> 10 ^ 18"
    by (rule percentage_in_range')
  from cnt obtain c where 7: "number_cfg (supplyCap cfg) = Inr c" "0 \<le> c"
      "c = \<lfloor>number_value (supplyCap cfg)\<rfloor>"
    by (rule number_cfg_count)
  from 1 2 3 4 5 6 7 show ?thesis by (rule that)
qed

lemma descaled_bound:
  fixes b :: int
  assumes "0 \<le> b" and "b \<le> 10 ^ 18"
  shows "0 \<le> b div 10 ^ 14" and "b div 10 ^ 14 \<le> 10 ^ 4" and "b div 10 ^ 14 < 2 ^ 16"
proof -
  show "0 \<le> b div 10 ^ 14" using assms(1) by (simp add: pos_imp_zdiv_nonneg_iff)
  have "b div 10 ^ 14 \<le> 10 ^ 18 div 10 ^ 14"
    using assms(2) by (intro zdiv_mono1) simp_all
  then show "b div 10 ^ 14 \<le> 10 ^ 4" by simp
  then show "b div 10 ^ 14 < 2 ^ 16" by simp
qed

lemma word_b_fields:
  fixes feed d c :: int
  assumes "0 \<le> feed" "feed < 2 ^ 160" "0 \<le> d" "0 \<le> c"
  defines "w \<equiv> feed OR push_bit 160 d OR push_bit 168 c"
  shows "take_bit 160 w = feed"
    and "drop_bit 160 w = d OR push_bit 8 c"
    and "0 \<le> w"
proof -
  note below = bit_below [OF assms(1,2)]
  show "take_bit 160 w = feed"
    unfolding w_def by (rule bit_eqI) (auto simp: bit_simps dest: below)
  show "drop_bit 160 w = d OR push_bit 8 c"
    unfolding w_def by (rule bit_eqI) (auto simp: bit_simps dest: below)
  show "0 \<le> w"
    unfolding w_def using assms by simp
qed

subsection \<open>Subset completeness\<close>

declare subsets.simps [simp del]

lemma subsets_drop: "subsets array offset = suffix_subsets (drop offset array)"
proof (induction array offset rule: subsets.induct)
  case (1 array offset)
  show ?case
  proof (cases "offset < length array")
    case True
    then have d: "drop offset array = array ! offset # drop (Suc offset) array"
      by (simp add: Cons_nth_drop_Suc)
    from True 1 show ?thesis
      by (subst subsets.simps) (simp add: d Let_def)
  next
    case False
    then show ?thesis
      by (subst subsets.simps) simp
  qed
qed

lemma solve_subsets: "solve migrations = subsets migrations 0"
proof -
  have "foldl (\<lambda>solutions migrationList. solutions @ [migrationList]) acc ys = acc @ ys" for acc and ys :: "'a list list"
    by (induction ys arbitrary: acc) simp_all
  then show ?thesis by (simp add: solve_def)
qed

lemma solve_suffix_subsets: "solve migrations = suffix_subsets migrations"
  by (simp add: solve_subsets subsets_drop)

lemma length_suffix_subsets: "length (suffix_subsets xs) = 2 ^ length xs"
  by (induction xs) simp_all

lemma member_suffix_subsets: "s \<in> set (suffix_subsets xs) \<Longrightarrow> y \<in> set s \<Longrightarrow> y \<in> set xs"
  by (induction xs arbitrary: s) fastforce+

lemma set_suffix_subsets: "s \<in> set (suffix_subsets xs) \<Longrightarrow> set s \<subseteq> set xs"
  using member_suffix_subsets by fast

lemma Pow_suffix_subsets: "set ` set (suffix_subsets xs) = Pow (set xs)"
proof (induction xs)
  case Nil
  then show ?case by simp
next
  case (Cons x xs)
  have "set ` set (suffix_subsets (x # xs)) = insert x ` (set ` set (suffix_subsets xs)) \<union> set ` set (suffix_subsets xs)"
    by (auto simp: image_Un image_image)
  also have "\<dots> = insert x ` Pow (set xs) \<union> Pow (set xs)"
    by (simp add: Cons.IH)
  also have "\<dots> = Pow (set (x # xs))"
    by (auto simp: Pow_insert)
  finally show ?case .
qed

lemma distinct_members: "distinct xs \<Longrightarrow> s \<in> set (suffix_subsets xs) \<Longrightarrow> distinct s"
proof (induction xs arbitrary: s)
  case Nil
  then show ?case by simp
next
  case (Cons x xs)
  then show ?case
    by (auto dest: member_suffix_subsets)
qed

lemma distinct_suffix_subsets: "distinct xs \<Longrightarrow> distinct (map set (suffix_subsets xs))"
proof (induction xs)
  case Nil
  then show ?case by simp
next
  case (Cons x xs)
  then have x: "x \<notin> set xs" and d: "distinct (map set (suffix_subsets xs))"
    by simp_all
  have sub: "\<And>s. s \<in> set (suffix_subsets xs) \<Longrightarrow> x \<notin> set s"
    using x by (blast dest: member_suffix_subsets)
  have "A = B" if "insert x A = insert x B" "x \<notin> A" "x \<notin> B" for A B :: "'a set"
    using that by (simp add: insert_ident)
  then have inj: "inj_on (insert x) (set ` set (suffix_subsets xs))"
    using sub by (auto simp: inj_on_def)
  have "distinct (map (insert x) (map set (suffix_subsets xs)))"
    using d inj by (simp add: distinct_map del: map_map)
  moreover have "insert x ` set ` set (suffix_subsets xs) \<inter> set ` set (suffix_subsets xs) = {}"
    using sub by auto
  ultimately show ?case
    using d by (simp add: comp_def image_image)
qed

text \<open>
  Claim C2. For a catalog of \<open>N\<close> distinct migrations, \<open>solve\<close> returns exactly \<open>2^N\<close>
  solutions; the subsets they capture are exactly the subsets of the catalog, no subset is
  captured twice, no captured list repeats a migration, and the empty subset is among them.
\<close>

theorem solve_complete:
  assumes "distinct migrations"
  shows "length (solve migrations) = 2 ^ length migrations
    \<and> set ` set (solve migrations) = Pow (set migrations)
    \<and> distinct (map set (solve migrations))
    \<and> (\<forall>s \<in> set (solve migrations). distinct s)
    \<and> [] \<in> set (solve migrations)"
proof -
  have "[] \<in> set (suffix_subsets migrations)"
    by (induction migrations) simp_all
  then show ?thesis
    using assms
    by (simp add: solve_suffix_subsets length_suffix_subsets Pow_suffix_subsets
        distinct_suffix_subsets distinct_members)
qed

theorem solve_complete_witness:
  "distinct [''b_addCollateral'', ''a_fixOracle'']
   \<and> solve [''b_addCollateral'', ''a_fixOracle'']
       = [[''a_fixOracle'', ''b_addCollateral''], [''b_addCollateral''], [''a_fixOracle''], []]
   \<and> length (solve [''b_addCollateral'', ''a_fixOracle'']) = 4
   \<and> distinct (map set (solve [''b_addCollateral'', ''a_fixOracle'']))"
  using solve_complete [of "[''b_addCollateral'', ''a_fixOracle'']"]
  by (simp add: solve_suffix_subsets)

subsection \<open>The sequence a solution applies\<close>







lemma executed_append: "executed (es @ fs) = executed es @ executed fs"
  by (induction es rule: executed.induct) simp_all

lemma apply_migrations_Cons:
  obtains (fails) x evm where "fails_with st m dm x"
      and "\<And>ms. apply_migrations st (m # ms) dm = (evm, Inl x)"
      and "executed evm = [name m]"
      and "set evm \<subseteq> {Prepare (name m), DebugPrepared (name m), Enact (name m)}"
  | (succeeds) dm2 where "\<And>x. \<not> fails_with st m dm x"
      and "\<And>ms. apply_migrations st (m # ms) dm =
            ([Prepare (name m), DebugPrepared (name m), Enact (name m), DebugEnacted (name m)]
               @ fst (apply_migrations st ms dm2),
             snd (apply_migrations st ms dm2))"
proof (cases "prepare (actions m) dm")
  case (Inl x)
  then show ?thesis
    by (intro fails [of x "[Prepare (name m)]"]) (simp_all add: fails_with_def)
next
  case (Inr p)
  obtain artifact dm1 where p: "p = (artifact, dm1)"
    by (cases p)
  show ?thesis
  proof (cases "st artifact")
    case (Some x)
    with Inr p show ?thesis
      by (intro fails [of x "[Prepare (name m)]"]) (simp_all add: fails_with_def)
  next
    case None
    show ?thesis
    proof (cases "enact (actions m) dm1 artifact")
      case (Inl x)
      with Inr p None show ?thesis
        by (intro fails [of x "[Prepare (name m), DebugPrepared (name m), Enact (name m)]"])
          (simp_all add: fails_with_def)
    next
      case Inr2: (Inr dm2)
      with Inr p None show ?thesis
        by (intro succeeds [of dm2]) (simp_all add: fails_with_def split_beta)
    qed
  qed
qed

lemma executed_apply_migrations:
  "prefix (executed (fst (apply_migrations st ms dm))) (map name ms)
     \<and> (\<forall>dm'. snd (apply_migrations st ms dm) = Inr dm'
          \<longrightarrow> executed (fst (apply_migrations st ms dm)) = map name ms)"
proof (induction ms arbitrary: dm)
  case Nil
  then show ?case by simp
next
  case (Cons m ms)
  show ?case
  proof (cases rule: apply_migrations_Cons [of st m dm])
    case (fails x evm)
    then show ?thesis by simp
  next
    case (succeeds dm2)
    with Cons.IH [of dm2] show ?thesis by simp
  qed
qed

lemma invoked_apply_migrations:
  "e \<in> set (fst (apply_migrations st ms dm)) \<Longrightarrow> invoked e = Some n \<Longrightarrow> n \<in> name ` set ms"
proof (induction ms arbitrary: dm)
  case Nil
  then show ?case by simp
next
  case (Cons m ms)
  show ?case
  proof (cases rule: apply_migrations_Cons [of st m dm])
    case (fails x evm)
    with Cons.prems show ?thesis by auto
  next
    case (succeeds dm2)
    with Cons.prems Cons.IH [of dm2] show ?thesis by auto
  qed
qed

lemma apply_migrations_append:
  assumes "apply_migrations st before dm = (events, Inr dm1)"
  shows "apply_migrations st (before @ rest) dm =
           (events @ fst (apply_migrations st rest dm1), snd (apply_migrations st rest dm1))"
  using assms
proof (induction before arbitrary: dm events)
  case Nil
  then show ?case by simp
next
  case (Cons m ms)
  show ?case
  proof (cases rule: apply_migrations_Cons [of st m dm])
    case (fails x evm)
    with Cons.prems show ?thesis by simp
  next
    case (succeeds dm2)
    from Cons.prems succeeds(2) [of ms]
    have ev: "events = [Prepare (name m), DebugPrepared (name m), Enact (name m), DebugEnacted (name m)]
               @ fst (apply_migrations st ms dm2)"
      and r: "snd (apply_migrations st ms dm2) = Inr dm1"
      by simp_all
    have "apply_migrations st ms dm2 = (fst (apply_migrations st ms dm2), Inr dm1)"
      using r by (metis prod.collapse)
    from Cons.IH [OF this] succeeds(2) [of "ms @ rest"] ev show ?thesis
      by simp
  qed
qed



lemma solution_unfold:
  assumes "getGovernor ctx = None" and "getProposer ctx = None"
  shows "fst (solution lc st ms ctx) =
           DebugRunning (map name (sort_migrations lc ms))
             # fst (apply_migrations st (sort_migrations lc ms) (deploymentManager ctx))"
    and "snd (solution lc st ms ctx) =
           (case snd (apply_migrations st (sort_migrations lc ms) (deploymentManager ctx)) of
              Inl x \<Rightarrow> Inl x | Inr dm \<Rightarrow> Inr (ctx\<lparr>deploymentManager := dm\<rparr>))"
  using assms by (simp_all add: solution_def Let_def split_beta)

lemma executed_solution:
  "prefix (executed (fst (solution lc st ms ctx))) (map name (sort_migrations lc ms))
   \<and> (\<forall>ctx'. snd (solution lc st ms ctx) = Inr ctx'
        \<longrightarrow> executed (fst (solution lc st ms ctx)) = map name (sort_migrations lc ms))"
proof (cases "getGovernor ctx = None \<and> getProposer ctx = None")
  case True
  then show ?thesis
    using executed_apply_migrations [of st "sort_migrations lc ms" "deploymentManager ctx"]
    by (auto simp: solution_unfold split: sum.splits)
next
  case False
  then show ?thesis
    by (auto simp: solution_def split: option.splits)
qed

lemma fails_with_unique:
  assumes "fails_with st m dm y" and "fails_with st m dm x"
  shows "y = x"
proof (cases "prepare (actions m) dm")
  case (Inl z)
  with assms show ?thesis by (simp add: fails_with_def)
next
  case (Inr p)
  obtain artifact dm1 where p: "p = (artifact, dm1)"
    by (cases p)
  show ?thesis
  proof (cases "st artifact")
    case (Some z)
    with assms Inr p show ?thesis by (simp add: fails_with_def)
  next
    case None
    show ?thesis
    proof (cases "enact (actions m) dm1 artifact")
      case (Inl z)
      with assms Inr p None show ?thesis by (simp add: fails_with_def)
    next
      case Inr2: (Inr dm2)
      with assms Inr p None show ?thesis by (simp add: fails_with_def)
    qed
  qed
qed











text \<open>
  Claim C4, as amended. Let the sorted list of a solution be \<open>before @ m # after\<close>,
  let the migrations of \<open>before\<close> run without failure, and let \<open>m\<close> fail with \<open>x\<close>
  (in \<open>prepare\<close>, in printing the artifact, or in \<open>enact\<close>). Then the solution fails
  with exactly \<open>x\<close>, the value thrown, unchanged; the migrations called are those of
  \<open>before\<close> and \<open>m\<close>, so no \<open>prepare\<close> or \<open>enact\<close> of a later migration is called; and
  the run is the same whatever follows \<open>m\<close>.
\<close>

theorem fail_fast:
  assumes "getGovernor ctx = None" and "getProposer ctx = None"
    and "sort_migrations localeCompare ms = before @ m # after"
    and "apply_migrations stringify before (deploymentManager ctx) = (events, Inr dm1)"
    and "fails_with stringify m dm1 x"
  shows "snd (solution localeCompare stringify ms ctx) = Inl x
    \<and> executed (fst (solution localeCompare stringify ms ctx)) = map name (before @ [m])
    \<and> (\<forall>e \<in> set (fst (solution localeCompare stringify ms ctx)). \<forall>n.
          invoked e = Some n \<longrightarrow> n \<in> name ` set (before @ [m]))
    \<and> apply_migrations stringify (before @ m # others) (deploymentManager ctx)
          = apply_migrations stringify (before @ m # after) (deploymentManager ctx)"
proof -
  let ?dm = "deploymentManager ctx"
  obtain evm where evm: "\<And>rest. apply_migrations stringify (m # rest) dm1 = (evm, Inl x)"
    and ex: "executed evm = [name m]"
    and sub: "set evm \<subseteq> {Prepare (name m), DebugPrepared (name m), Enact (name m)}"
  proof (cases rule: apply_migrations_Cons [of stringify m dm1])
    case (fails y evm)
    from fails(1) assms(5) have "y = x"
      by (rule fails_with_unique)
    show ?thesis
    proof (rule that)
      show "apply_migrations stringify (m # rest) dm1 = (evm, Inl x)" for rest
        using fails(2) [of rest] \<open>y = x\<close> by simp
    qed (rule fails(3), rule fails(4))
  next
    case (succeeds dm2)
    from succeeds(1) [of x] assms(5) show ?thesis
      by simp
  qed
  have all: "apply_migrations stringify (before @ m # rest) ?dm = (events @ evm, Inl x)" for rest
    using apply_migrations_append [OF assms(4), of "m # rest"] evm by simp
  have before: "executed events = map name before"
    using executed_apply_migrations [of stringify before ?dm] assms(4) by simp
  have inv: "n \<in> name ` set (before @ [m])" if "e \<in> set (events @ evm)" "invoked e = Some n" for e n
  proof (cases "e \<in> set events")
    case True
    then show ?thesis
      using invoked_apply_migrations [of e stringify before ?dm n] assms(4) that(2) by simp
  next
    case False
    with that sub show ?thesis by auto
  qed
  have f: "fst (solution localeCompare stringify ms ctx)
          = DebugRunning (map name (before @ m # after)) # events @ evm"
    and r: "snd (solution localeCompare stringify ms ctx) = Inl x"
    using assms(1,2,3) all [of after] by (simp_all add: solution_unfold)
  have "executed (fst (solution localeCompare stringify ms ctx)) = map name (before @ [m])"
    by (simp add: f executed_append before ex)
  moreover have "\<forall>e \<in> set (fst (solution localeCompare stringify ms ctx)). \<forall>n.
          invoked e = Some n \<longrightarrow> n \<in> name ` set (before @ [m])"
  proof (intro ballI allI impI)
    fix e n
    assume "e \<in> set (fst (solution localeCompare stringify ms ctx))" and i: "invoked e = Some n"
    then have "e \<in> set (events @ evm)"
      unfolding f by auto
    then show "n \<in> name ` set (before @ [m])"
      using i by (rule inv)
  qed
  moreover have "apply_migrations stringify (before @ m # others) ?dm
      = apply_migrations stringify (before @ m # after) ?dm"
    by (simp only: all)
  ultimately show ?thesis
    using r by blast
qed

theorem fail_fast_witness:
  "getGovernor fresh_context = None \<and> getProposer fresh_context = None
   \<and> sort_migrations code_unit_compare
        [counting_migration ''c_raiseCap'', failing_migration ''b_addCollateral'' ''revert'',
         counting_migration ''a_fixOracle'']
      = [counting_migration ''a_fixOracle''] @ failing_migration ''b_addCollateral'' ''revert''
          # [counting_migration ''c_raiseCap'']
   \<and> fails_with (\<lambda>artifact. None) (failing_migration ''b_addCollateral'' ''revert'') 1 ''revert''
   \<and> solution code_unit_compare (\<lambda>artifact. None)
        [counting_migration ''c_raiseCap'', failing_migration ''b_addCollateral'' ''revert'',
         counting_migration ''a_fixOracle''] fresh_context
      = ([DebugRunning [''a_fixOracle'', ''b_addCollateral'', ''c_raiseCap''],
          Prepare ''a_fixOracle'', DebugPrepared ''a_fixOracle'', Enact ''a_fixOracle'',
          DebugEnacted ''a_fixOracle'',
          Prepare ''b_addCollateral'', DebugPrepared ''b_addCollateral'', Enact ''b_addCollateral''],
         Inl ''revert'')
   \<and> solution code_unit_compare (\<lambda>artifact. None)
        [counting_migration ''c_raiseCap'', counting_migration ''a_fixOracle''] fresh_context
      = ([DebugRunning [''a_fixOracle'', ''c_raiseCap''],
          Prepare ''a_fixOracle'', DebugPrepared ''a_fixOracle'', Enact ''a_fixOracle'',
          DebugEnacted ''a_fixOracle'',
          Prepare ''c_raiseCap'', DebugPrepared ''c_raiseCap'', Enact ''c_raiseCap'',
          DebugEnacted ''c_raiseCap''],
         Inr (fresh_context\<lparr>deploymentManager := 2\<rparr>))"
proof -
  let ?a = "counting_migration ''a_fixOracle''"
  let ?b = "failing_migration ''b_addCollateral'' ''revert''"
  let ?c = "counting_migration ''c_raiseCap''"
  have g: "getGovernor fresh_context = None" "getProposer fresh_context = None"
    by (simp_all add: fresh_context_def)
  have s: "sort_migrations code_unit_compare [?c, ?b, ?a] = [?a] @ ?b # [?c]"
    by (simp add: sort_migrations_def counting_migration_def failing_migration_def
        code_unit_compare_def)
  have s2: "sort_migrations code_unit_compare [?c, ?a] = [?a, ?c]"
    by (simp add: sort_migrations_def counting_migration_def code_unit_compare_def)
  have a: "apply_migrations (\<lambda>artifact. None) [?a] (deploymentManager fresh_context)
      = ([Prepare ''a_fixOracle'', DebugPrepared ''a_fixOracle'', Enact ''a_fixOracle'',
          DebugEnacted ''a_fixOracle''], Inr 1)"
    by (simp add: counting_migration_def fresh_context_def)
  have f: "fails_with (\<lambda>artifact. None) ?b 1 ''revert''"
    by (simp add: fails_with_def failing_migration_def)
  have run: "solution code_unit_compare (\<lambda>artifact. None) [?c, ?b, ?a] fresh_context
      = ([DebugRunning [''a_fixOracle'', ''b_addCollateral'', ''c_raiseCap''],
          Prepare ''a_fixOracle'', DebugPrepared ''a_fixOracle'', Enact ''a_fixOracle'',
          DebugEnacted ''a_fixOracle'',
          Prepare ''b_addCollateral'', DebugPrepared ''b_addCollateral'', Enact ''b_addCollateral''],
         Inl ''revert'')"
    by (simp add: solution_def g s) (simp add: counting_migration_def failing_migration_def fresh_context_def)
  have run2: "solution code_unit_compare (\<lambda>artifact. None) [?c, ?a] fresh_context
      = ([DebugRunning [''a_fixOracle'', ''c_raiseCap''],
          Prepare ''a_fixOracle'', DebugPrepared ''a_fixOracle'', Enact ''a_fixOracle'',
          DebugEnacted ''a_fixOracle'',
          Prepare ''c_raiseCap'', DebugPrepared ''c_raiseCap'', Enact ''c_raiseCap'',
          DebugEnacted ''c_raiseCap''],
         Inr (fresh_context\<lparr>deploymentManager := 2\<rparr>))"
    by (simp add: solution_def g s2) (simp add: counting_migration_def fresh_context_def)
  from fail_fast [OF g s a f]
  have "snd (solution code_unit_compare (\<lambda>artifact. None) [?c, ?b, ?a] fresh_context) = Inl ''revert''"
    by (rule conjunct1)
  with s f g run run2 show ?thesis
    by simp
qed

text \<open>
  The failure carries no name: two solutions whose failing migrations have different
  names surface the same value when the migrations throw the same value.
\<close>

theorem failure_without_name_counterexample:
  "snd (solution code_unit_compare (\<lambda>artifact. None)
          [failing_migration ''a_fixOracle'' ''revert''] fresh_context) = Inl ''revert''
   \<and> snd (solution code_unit_compare (\<lambda>artifact. None)
          [failing_migration ''b_addCollateral'' ''revert''] fresh_context) = Inl ''revert''"
  by (simp add: solution_def sort_migrations_def failing_migration_def fresh_context_def)

subsection \<open>The packed words\<close>

lemma valid_example: "valid_input example_asset example_config"
  by (simp add: valid_input_def example_asset_def example_config_def isAddress_def is_digit_def
      digit_of_def is_decimals_def one_number_def zero_number_def)

lemma pack_example:
  "packAssetConfig example_asset example_config =
     Inr \<lparr>word_a = 59633280636122546188437638650987570047424899663507149029376001,
          word_b = 374144427925720971045560826397477449329616848937451258111\<rparr>"
  by code_simp

text \<open>
  Claim C3. For a valid input (both addresses well-formed, the three percentages in
  \<open>[0, 1]\<close>, the supply cap a finite number that is not negative, the decimals an
  integer that is not negative) \<open>packAssetConfig\<close> returns, and in the words it returns:
  \<open>word_a\<close> is the asset address OR-ed with the borrow factor, the liquidate factor and
  the liquidation factor, each the encoded percentage divided by \<open>10^14\<close>, shifted by
  160, 176 and 192; \<open>word_b\<close> is the price-feed address OR-ed with the decimals shifted
  by 160 and the supply cap divided by \<open>10^decimals\<close> shifted by 168. The low 160 bits of
  each word are the address, and what lies above them is the union of the other fields
  at offsets 0, 16, 32 (and 0, 8) from bit 160.
\<close>

theorem pack_layout:
  assumes "valid_input assetAddress assetConfig"
  shows "\<exists>asset feed d b l f c w.
      BigInt_string assetAddress = Inr asset
    \<and> BigInt_string (priceFeed assetConfig) = Inr feed
    \<and> BigInt_number (decimals assetConfig) = Inr d
    \<and> percentage (borrowCF assetConfig) True = Inr b
    \<and> percentage (liquidateCF assetConfig) True = Inr l
    \<and> percentage (liquidationFactor assetConfig) True = Inr f
    \<and> number_cfg (supplyCap assetConfig) = Inr c
    \<and> packAssetConfig assetAddress assetConfig = Inr w
    \<and> word_a w = asset OR push_bit 160 (b div 10 ^ 14) OR push_bit 176 (l div 10 ^ 14)
                 OR push_bit 192 (f div 10 ^ 14)
    \<and> word_b w = feed OR push_bit 160 d OR push_bit 168 (c div 10 ^ nat d)
    \<and> take_bit 160 (word_a w) = asset
    \<and> drop_bit 160 (word_a w) = b div 10 ^ 14 OR push_bit 16 (l div 10 ^ 14)
                 OR push_bit 32 (f div 10 ^ 14)
    \<and> take_bit 160 (word_b w) = feed
    \<and> drop_bit 160 (word_b w) = d OR push_bit 8 (c div 10 ^ nat d)"
proof -
  from assms obtain asset feed d b l f c where
      asset: "BigInt_string assetAddress = Inr asset" "0 \<le> asset" "asset < 2 ^ 160"
    and feed: "BigInt_string (priceFeed assetConfig) = Inr feed" "0 \<le> feed" "feed < 2 ^ 160"
    and d: "BigInt_number (decimals assetConfig) = Inr d" "0 \<le> d"
    and b: "percentage (borrowCF assetConfig) True = Inr b" "0 \<le> b" "b \<le> 10 ^ 18"
    and l: "percentage (liquidateCF assetConfig) True = Inr l" "0 \<le> l" "l \<le> 10 ^ 18"
    and f: "percentage (liquidationFactor assetConfig) True = Inr f" "0 \<le> f" "f \<le> 10 ^ 18"
    and c: "number_cfg (supplyCap assetConfig) = Inr c" "0 \<le> c"
    by (rule valid_input_fields)
  define w where "w = \<lparr>word_a = asset OR push_bit 160 (b div 10 ^ 14) OR push_bit 176 (l div 10 ^ 14)
                 OR push_bit 192 (f div 10 ^ 14),
      word_b = feed OR push_bit 160 d OR push_bit 168 (c div 10 ^ nat d)\<rparr>"
  have pf: "isAddress (priceFeed assetConfig)"
    using assms by (simp add: valid_input_def)
  have p: "packAssetConfig assetAddress assetConfig = Inr w"
    using packAssetConfig_success [OF pf d b(1) l(1) f(1) c(1) asset(1) feed(1)] b(2) l(2) f(2) c(2)
    by (simp add: w_def descale_eq BigInt_div_nonneg)
  have c0: "0 \<le> c div 10 ^ nat d"
    using c(2) by (simp add: pos_imp_zdiv_nonneg_iff)
  note A = word_a_fields [OF asset(2,3) descaled_bound(1,3) [OF b(2,3)] descaled_bound(1,3) [OF l(2,3)]
      descaled_bound(1,3) [OF f(2,3)]]
  note B = word_b_fields [OF feed(2,3) d(2) c0]
  have "word_a w = asset OR push_bit 160 (b div 10 ^ 14) OR push_bit 176 (l div 10 ^ 14)
                 OR push_bit 192 (f div 10 ^ 14)"
    and "word_b w = feed OR push_bit 160 d OR push_bit 168 (c div 10 ^ nat d)"
    by (simp_all add: w_def)
  moreover have "take_bit 160 (word_a w) = asset"
    and "drop_bit 160 (word_a w) = b div 10 ^ 14 OR push_bit 16 (l div 10 ^ 14)
                 OR push_bit 32 (f div 10 ^ 14)"
    and "take_bit 160 (word_b w) = feed"
    and "drop_bit 160 (word_b w) = d OR push_bit 8 (c div 10 ^ nat d)"
    using A(1,5) B(1,2) by (simp_all add: w_def)
  ultimately show ?thesis
    using asset(1) feed(1) d(1) b(1) l(1) f(1) c(1) p by blast
qed

theorem pack_layout_witness:
  "valid_input example_asset example_config
   \<and> packAssetConfig example_asset example_config =
       Inr \<lparr>word_a = 59633280636122546188437638650987570047424899663507149029376001,
            word_b = 374144427925720971045560826397477449329616848937451258111\<rparr>
   \<and> take_bit 160 (59633280636122546188437638650987570047424899663507149029376001 :: int)
       = 0xABCDEF0000000000000000000000000000000001
   \<and> drop_bit 160 (59633280636122546188437638650987570047424899663507149029376001 :: int)
       = 8000 OR push_bit 16 8500 OR push_bit 32 9500
   \<and> take_bit 160 (374144427925720971045560826397477449329616848937451258111 :: int) = 0xff
   \<and> drop_bit 160 (374144427925720971045560826397477449329616848937451258111 :: int)
       = 6 OR push_bit 8 1000000"
proof -
  from pack_layout [OF valid_example] obtain asset feed d b l f c w where
      "BigInt_string example_asset = Inr asset"
      "BigInt_string (priceFeed example_config) = Inr feed"
      "BigInt_number (decimals example_config) = Inr d"
      "percentage (borrowCF example_config) True = Inr b"
      "percentage (liquidateCF example_config) True = Inr l"
      "percentage (liquidationFactor example_config) True = Inr f"
      "number_cfg (supplyCap example_config) = Inr c"
      and w: "packAssetConfig example_asset example_config = Inr w"
      "take_bit 160 (word_a w) = asset"
      "drop_bit 160 (word_a w) = b div 10 ^ 14 OR push_bit 16 (l div 10 ^ 14) OR push_bit 32 (f div 10 ^ 14)"
      "take_bit 160 (word_b w) = feed"
      "drop_bit 160 (word_b w) = d OR push_bit 8 (c div 10 ^ nat d)"
    by blast
  moreover have "BigInt_string example_asset = Inr 0xABCDEF0000000000000000000000000000000001"
    and "BigInt_string (priceFeed example_config) = Inr 0xff"
    and "BigInt_number (decimals example_config) = Inr 6"
    and "percentage (borrowCF example_config) True = Inr 800000000000000000"
    and "percentage (liquidateCF example_config) True = Inr 850000000000000000"
    and "percentage (liquidationFactor example_config) True = Inr 950000000000000000"
    and "number_cfg (supplyCap example_config) = Inr 1000000000000"
    by code_simp+
  ultimately have "asset = 0xABCDEF0000000000000000000000000000000001" "feed = 0xff" "d = 6"
    "b = 800000000000000000" "l = 850000000000000000" "f = 950000000000000000" "c = 1000000000000"
    by simp_all
  with w pack_example valid_example show ?thesis
    by simp
qed

subsection \<open>Rejection of percentages out of range\<close>

lemma less_zero_not_greater_one:
  assumes "number_less n zero_number"
  shows "\<not> number_less one_number n"
proof (cases n)
  case (Finite m e)
  from assms have "number_value (Finite m e) < number_value (Finite 0 0)"
    unfolding Finite zero_number_def number_less_value .
  then have "\<not> number_value (Finite 1 0) < number_value (Finite m e)"
    by simp
  then show ?thesis
    unfolding Finite one_number_def number_less_value .
qed (use assms in \<open>simp_all add: one_number_def zero_number_def\<close>)

lemma percentage_rejects:
  assumes "out_of_range n"
  obtains e where "percentage n True = Inl e" and "OutOfRange e"
  using assms percentage_out_of_range [OF assms] by (cases "number_less one_number n") (simp_all add: OutOfRange_def)

lemma percentage_not_NaN:
  assumes "n \<noteq> NaN"
  shows "(\<exists>e. percentage n True = Inl e \<and> OutOfRange e \<and> out_of_range n)
       \<or> (\<exists>v. percentage n True = Inr v \<and> in_range n)"
proof (cases "out_of_range n")
  case True
  then show ?thesis by (metis percentage_rejects)
next
  case False
  with assms have "in_range n" using in_or_out_of_range by blast
  then show ?thesis by (metis percentage_in_range')
qed

lemma in_range_not_out: "in_range n \<Longrightarrow> \<not> out_of_range n"
  by (cases n) (simp_all add: out_of_range_def)

lemma out_of_range_fails:
  assumes "out_of_range n"
  shows "percentage n True \<noteq> Inr v"
  using percentage_out_of_range [OF assms] by simp

lemma pack_out_of_range:
  assumes "isAddress (priceFeed cfg)" and "BigInt_number (decimals cfg) = Inr d"
    and "borrowCF cfg \<noteq> NaN" and "liquidateCF cfg \<noteq> NaN" and "liquidationFactor cfg \<noteq> NaN"
    and "out_of_range (borrowCF cfg) \<or> out_of_range (liquidateCF cfg)
         \<or> out_of_range (liquidationFactor cfg)"
  shows "\<exists>e. packAssetConfig a cfg = Inl e \<and> OutOfRange e"
proof -
  note defs = packAssetConfig_def bind_result_def address_def
  from percentage_not_NaN [OF assms(3)] show ?thesis
  proof (elim disjE exE conjE)
    fix e assume "percentage (borrowCF cfg) True = Inl e" "OutOfRange e"
    then show ?thesis using assms(1,2) by (simp add: defs)
  next
    fix b assume b: "percentage (borrowCF cfg) True = Inr b" "in_range (borrowCF cfg)"
    from percentage_not_NaN [OF assms(4)] show ?thesis
    proof (elim disjE exE conjE)
      fix e assume "percentage (liquidateCF cfg) True = Inl e" "OutOfRange e"
      then show ?thesis using assms(1,2) b(1) by (simp add: defs)
    next
      fix l assume l: "percentage (liquidateCF cfg) True = Inr l" "in_range (liquidateCF cfg)"
      from b(2) l(2) assms(6) have "out_of_range (liquidationFactor cfg)"
        using in_range_not_out by blast
      then obtain e where "percentage (liquidationFactor cfg) True = Inl e" "OutOfRange e"
        by (rule percentage_rejects)
      then show ?thesis using assms(1,2) b(1) l(1) by (simp add: defs)
    qed
  qed
qed

lemma pack_fails_out_of_range:
  assumes "out_of_range (borrowCF cfg) \<or> out_of_range (liquidateCF cfg)
         \<or> out_of_range (liquidationFactor cfg)"
  shows "\<exists>e. packAssetConfig a cfg = Inl e"
proof (cases "packAssetConfig a cfg")
  case (Inl e)
  then show ?thesis by blast
next
  case (Inr w)
  then obtain b l f where "percentage (borrowCF cfg) True = Inr b"
    "percentage (liquidateCF cfg) True = Inr l" "percentage (liquidationFactor cfg) True = Inr f"
    by (rule packAssetConfig_Inr)
  with assms out_of_range_fails show ?thesis by blast
qed

lemma valid_input_packs:
  assumes "valid_input a cfg"
  shows "\<exists>w. packAssetConfig a cfg = Inr w"
proof -
  from assms obtain asset feed d b l f c where
      asset: "BigInt_string a = Inr asset"
    and feed: "BigInt_string (priceFeed cfg) = Inr feed"
    and d: "BigInt_number (decimals cfg) = Inr d" "0 \<le> d"
    and b: "percentage (borrowCF cfg) True = Inr b"
    and l: "percentage (liquidateCF cfg) True = Inr l"
    and f: "percentage (liquidationFactor cfg) True = Inr f"
    and c: "number_cfg (supplyCap cfg) = Inr c"
    by (rule valid_input_fields)
  have pf: "isAddress (priceFeed cfg)"
    using assms by (simp add: valid_input_def)
  from packAssetConfig_success [OF pf d b l f c asset feed] show ?thesis
    by (rule exI)
qed

lemma in_range_zero_one: "in_range zero_number" "in_range one_number"
  by (simp_all add: zero_number_def one_number_def)

lemma percentage_zero_one:
  "percentage zero_number True = Inr 0" "percentage one_number True = Inr (10 ^ 18)"
  by code_simp+

text \<open>
  Claim C6, as amended. \<open>percentage\<close> throws its "greater than 100%" error on every
  number above \<open>1.0\<close> and its "less than 0%" error on every number below \<open>0\<close>, and
  returns on \<open>0\<close> and on \<open>1.0\<close> (\<open>0\<close> and \<open>10^18\<close>). \<open>packAssetConfig\<close> fails on every input
  with a percentage out of range; the first failure wins, so the failure is one of the
  two range errors whenever the statements before the failing call return (the price feed
  is an address, the decimals are an integer, no percentage is NaN). It returns on a
  valid input whose percentages are set to \<open>0\<close> or \<open>1.0\<close>.
\<close>

theorem range_rejection:
  "(number_less one_number n \<longrightarrow> percentage n True = Inl PercentageGreater)
   \<and> (number_less n zero_number \<longrightarrow> percentage n True = Inl PercentageLess)
   \<and> (out_of_range (borrowCF cfg) \<or> out_of_range (liquidateCF cfg)
        \<or> out_of_range (liquidationFactor cfg)
      \<longrightarrow> (\<exists>e. packAssetConfig a cfg = Inl e)
        \<and> (isAddress (priceFeed cfg) \<and> (\<exists>d. BigInt_number (decimals cfg) = Inr d)
            \<and> borrowCF cfg \<noteq> NaN \<and> liquidateCF cfg \<noteq> NaN \<and> liquidationFactor cfg \<noteq> NaN
           \<longrightarrow> (\<exists>e. packAssetConfig a cfg = Inl e \<and> OutOfRange e)))
   \<and> percentage zero_number True = Inr 0
   \<and> percentage one_number True = Inr (10 ^ 18)
   \<and> (valid_input a cfg \<and> p1 \<in> {zero_number, one_number} \<and> p2 \<in> {zero_number, one_number}
        \<and> p3 \<in> {zero_number, one_number}
      \<longrightarrow> (\<exists>w. packAssetConfig a (cfg\<lparr>borrowCF := p1, liquidateCF := p2, liquidationFactor := p3\<rparr>)
              = Inr w))"
proof (intro conjI impI)
  show "percentage n True = Inl PercentageGreater" if "number_less one_number n"
    using that by (simp add: percentage_def)
  show "percentage n True = Inl PercentageLess" if "number_less n zero_number"
    using that less_zero_not_greater_one [OF that] by (simp add: percentage_def)
  show "\<exists>e. packAssetConfig a cfg = Inl e"
    if "out_of_range (borrowCF cfg) \<or> out_of_range (liquidateCF cfg)
        \<or> out_of_range (liquidationFactor cfg)"
    using that by (rule pack_fails_out_of_range)
  show "\<exists>e. packAssetConfig a cfg = Inl e \<and> OutOfRange e"
    if o: "out_of_range (borrowCF cfg) \<or> out_of_range (liquidateCF cfg)
        \<or> out_of_range (liquidationFactor cfg)"
      and h: "isAddress (priceFeed cfg) \<and> (\<exists>d. BigInt_number (decimals cfg) = Inr d)
            \<and> borrowCF cfg \<noteq> NaN \<and> liquidateCF cfg \<noteq> NaN \<and> liquidationFactor cfg \<noteq> NaN"
  proof -
    from h obtain d where "BigInt_number (decimals cfg) = Inr d" by blast
    with h o show ?thesis
      by (intro pack_out_of_range [where d = d]) simp_all
  qed
  show "percentage zero_number True = Inr 0" "percentage one_number True = Inr (10 ^ 18)"
    by (rule percentage_zero_one)+
  show "\<exists>w. packAssetConfig a (cfg\<lparr>borrowCF := p1, liquidateCF := p2, liquidationFactor := p3\<rparr>) = Inr w"
    if h: "valid_input a cfg \<and> p1 \<in> {zero_number, one_number} \<and> p2 \<in> {zero_number, one_number}
        \<and> p3 \<in> {zero_number, one_number}"
  proof -
    from h have "in_range p1" "in_range p2" "in_range p3"
      using in_range_zero_one by auto
    with h have "valid_input a (cfg\<lparr>borrowCF := p1, liquidateCF := p2, liquidationFactor := p3\<rparr>)"
      by (simp add: valid_input_def)
    then show ?thesis by (rule valid_input_packs)
  qed
qed

theorem range_rejection_witness:
  "number_less one_number (Finite 3 (- 1))
   \<and> percentage (Finite 3 (- 1)) True = Inl PercentageGreater
   \<and> number_less (Finite (- 1) (- 2)) zero_number
   \<and> percentage (Finite (- 1) (- 2)) True = Inl PercentageLess
   \<and> out_of_range (liquidateCF (example_config\<lparr>liquidateCF := Finite (- 1) (- 2)\<rparr>))
   \<and> packAssetConfig example_asset (example_config\<lparr>liquidateCF := Finite (- 1) (- 2)\<rparr>)
       = Inl PercentageLess
   \<and> OutOfRange PercentageLess
   \<and> valid_input example_asset example_config
   \<and> packAssetConfig example_asset
         (example_config\<lparr>borrowCF := zero_number, liquidateCF := one_number,
            liquidationFactor := one_number\<rparr>)
       = Inr \<lparr>word_a = 62771975163580829648788781111995719935231777485284410654720001,
              word_b = 374144427925720971045560826397477449329616848937451258111\<rparr>"
proof -
  let ?low = "example_config\<lparr>liquidateCF := Finite (- 1) (- 2)\<rparr>"
  have g: "number_less one_number (Finite 3 (- 1))"
    by (simp add: one_number_def)
  have l: "number_less (Finite (- 1) (- 2)) zero_number"
    by (simp add: zero_number_def)
  have o: "out_of_range (liquidateCF ?low)"
    using l by (simp add: out_of_range_def)
  have h: "isAddress (priceFeed ?low) \<and> (\<exists>d. BigInt_number (decimals ?low) = Inr d)
      \<and> borrowCF ?low \<noteq> NaN \<and> liquidateCF ?low \<noteq> NaN \<and> liquidationFactor ?low \<noteq> NaN"
    by (simp add: example_config_def isAddress_def is_digit_def digit_of_def)
  have 1: "percentage (Finite 3 (- 1)) True = Inl PercentageGreater"
    using range_rejection [of "Finite 3 (- 1)"] g by blast
  have 2: "percentage (Finite (- 1) (- 2)) True = Inl PercentageLess"
    using range_rejection [of "Finite (- 1) (- 2)"] l by blast
  have "\<exists>e. packAssetConfig example_asset ?low = Inl e \<and> OutOfRange e"
    using range_rejection [of _ ?low example_asset] o h by blast
  moreover have 3: "packAssetConfig example_asset ?low = Inl PercentageLess"
    by code_simp
  have z: "zero_number \<in> {zero_number, one_number}" "one_number \<in> {zero_number, one_number}"
    by simp_all
  have "\<exists>w. packAssetConfig example_asset
         (example_config\<lparr>borrowCF := zero_number, liquidateCF := one_number,
            liquidationFactor := one_number\<rparr>) = Inr w"
    using range_rejection [of _ example_config example_asset zero_number one_number one_number]
      valid_example z by blast
  moreover have 4: "packAssetConfig example_asset
         (example_config\<lparr>borrowCF := zero_number, liquidateCF := one_number,
            liquidationFactor := one_number\<rparr>)
       = Inr \<lparr>word_a = 62771975163580829648788781111995719935231777485284410654720001,
              word_b = 374144427925720971045560826397477449329616848937451258111\<rparr>"
    by code_simp
  ultimately show ?thesis
    using g l o 1 2 3 valid_example by (simp add: OutOfRange_def)
qed

text \<open>
  The range error is not what every such input fails with: the price feed is checked
  before the percentages, and an input with a malformed price feed and a percentage of
  \<open>1.5\<close> fails with the address error.
\<close>

theorem range_error_precedence_counterexample:
  "out_of_range (borrowCF (example_config\<lparr>priceFeed := ''0x1'', borrowCF := Finite 3 (- 1)\<rparr>))
   \<and> packAssetConfig example_asset (example_config\<lparr>priceFeed := ''0x1'', borrowCF := Finite 3 (- 1)\<rparr>)
       = Inl ExpectedAddress
   \<and> \<not> OutOfRange ExpectedAddress"
  by code_simp

subsection \<open>Validation of addresses\<close>

text \<open>The price feed is validated first: a malformed one fails with the address error.\<close>

lemma price_feed_validated:
  "\<not> isAddress (priceFeed cfg) \<Longrightarrow> packAssetConfig a cfg = Inl ExpectedAddress"
  by (simp add: packAssetConfig_def bind_result_def address_def)


subsection \<open>The fields of the first word\<close>

text \<open>
  Claim C10, as amended. When the asset address is well-formed, the three percentages
  are in \<open>[0, 1]\<close> and \<open>packAssetConfig\<close> returns, each factor written into \<open>word_a\<close> is at
  most \<open>10^4\<close>, which is below \<open>2^16\<close>, and every field of \<open>word_a\<close> is recovered by
  shifting and masking: the address from the low 160 bits, the factors from the 16-bit
  windows at 160, 176 and 192.
\<close>

theorem word_a_fields_recoverable:
  assumes "isAddress a" and "in_range (borrowCF cfg)" and "in_range (liquidateCF cfg)"
    and "in_range (liquidationFactor cfg)" and "packAssetConfig a cfg = Inr w"
  shows "\<exists>asset b l f.
      BigInt_string a = Inr asset
    \<and> percentage (borrowCF cfg) True = Inr b
    \<and> percentage (liquidateCF cfg) True = Inr l
    \<and> percentage (liquidationFactor cfg) True = Inr f
    \<and> b div 10 ^ 14 \<le> 10 ^ 4 \<and> l div 10 ^ 14 \<le> 10 ^ 4 \<and> f div 10 ^ 14 \<le> 10 ^ 4
    \<and> (10 ^ 4 :: int) < 2 ^ 16
    \<and> take_bit 160 (word_a w) = asset
    \<and> take_bit 16 (drop_bit 160 (word_a w)) = b div 10 ^ 14
    \<and> take_bit 16 (drop_bit 176 (word_a w)) = l div 10 ^ 14
    \<and> take_bit 16 (drop_bit 192 (word_a w)) = f div 10 ^ 14"
proof -
  from assms(5) obtain d b l f c asset feed where
      b: "percentage (borrowCF cfg) True = Inr b"
    and l: "percentage (liquidateCF cfg) True = Inr l"
    and f: "percentage (liquidationFactor cfg) True = Inr f"
    and asset: "BigInt_string a = Inr asset"
    and w: "w = \<lparr>word_a = asset OR push_bit 160 (BigInt_div b descale)
                          OR push_bit 176 (BigInt_div l descale)
                          OR push_bit 192 (BigInt_div f descale),
               word_b = feed OR push_bit 160 d OR push_bit 168 (BigInt_div c (10 ^ nat d))\<rparr>"
    by (rule packAssetConfig_Inr)
  from assms(1) asset have a: "0 \<le> asset" "asset < 2 ^ 160"
    by (auto elim: BigInt_string_address)
  from assms(2) b have b': "0 \<le> b" "b \<le> 10 ^ 18"
    by (auto elim: percentage_in_range')
  from assms(3) l have l': "0 \<le> l" "l \<le> 10 ^ 18"
    by (auto elim: percentage_in_range')
  from assms(4) f have f': "0 \<le> f" "f \<le> 10 ^ 18"
    by (auto elim: percentage_in_range')
  have wa: "word_a w = asset OR push_bit 160 (b div 10 ^ 14) OR push_bit 176 (l div 10 ^ 14)
                 OR push_bit 192 (f div 10 ^ 14)"
    using b'(1) l'(1) f'(1) by (simp add: w descale_eq BigInt_div_nonneg)
  note A = word_a_fields [OF a descaled_bound(1,3) [OF b'] descaled_bound(1,3) [OF l']
      descaled_bound(1,3) [OF f'], folded wa]
  note B = descaled_bound(2) [OF b'] descaled_bound(2) [OF l'] descaled_bound(2) [OF f']
  have "(10 ^ 4 :: int) < 2 ^ 16" by simp
  with asset b l f A(1-4) B show ?thesis by blast
qed

theorem word_a_fields_recoverable_witness:
  "isAddress example_asset \<and> in_range (borrowCF example_config)
   \<and> in_range (liquidateCF example_config) \<and> in_range (liquidationFactor example_config)
   \<and> packAssetConfig example_asset example_config =
       Inr \<lparr>word_a = 59633280636122546188437638650987570047424899663507149029376001,
            word_b = 374144427925720971045560826397477449329616848937451258111\<rparr>
   \<and> take_bit 160 (59633280636122546188437638650987570047424899663507149029376001 :: int)
       = 0xABCDEF0000000000000000000000000000000001
   \<and> take_bit 16 (drop_bit 160 (59633280636122546188437638650987570047424899663507149029376001 :: int)) = 8000
   \<and> take_bit 16 (drop_bit 176 (59633280636122546188437638650987570047424899663507149029376001 :: int)) = 8500
   \<and> take_bit 16 (drop_bit 192 (59633280636122546188437638650987570047424899663507149029376001 :: int)) = 9500"
proof -
  let ?w = "\<lparr>word_a = 59633280636122546188437638650987570047424899663507149029376001,
            word_b = 374144427925720971045560826397477449329616848937451258111\<rparr>"
  have h: "isAddress example_asset" "in_range (borrowCF example_config)"
    "in_range (liquidateCF example_config)" "in_range (liquidationFactor example_config)"
    using valid_example by (simp_all add: valid_input_def)
  from word_a_fields_recoverable [OF h pack_example] obtain asset b l f where
      "BigInt_string example_asset = Inr asset"
      "percentage (borrowCF example_config) True = Inr b"
      "percentage (liquidateCF example_config) True = Inr l"
      "percentage (liquidationFactor example_config) True = Inr f"
      and r: "take_bit 160 (word_a ?w) = asset"
      "take_bit 16 (drop_bit 160 (word_a ?w)) = b div 10 ^ 14"
      "take_bit 16 (drop_bit 176 (word_a ?w)) = l div 10 ^ 14"
      "take_bit 16 (drop_bit 192 (word_a ?w)) = f div 10 ^ 14"
    by blast
  moreover have "BigInt_string example_asset = Inr 0xABCDEF0000000000000000000000000000000001"
    and "percentage (borrowCF example_config) True = Inr 800000000000000000"
    and "percentage (liquidateCF example_config) True = Inr 850000000000000000"
    and "percentage (liquidationFactor example_config) True = Inr 950000000000000000"
    by code_simp+
  ultimately have "asset = 0xABCDEF0000000000000000000000000000000001"
    "b = 800000000000000000" "l = 850000000000000000" "f = 950000000000000000"
    by simp_all
  with r h pack_example show ?thesis
    by simp
qed

text \<open>
  Without the condition on the asset address the fields overlap: an asset string of 41
  hexadecimal digits sets bit 160, and the window of the borrow factor reads \<open>8001\<close>
  where the factor written is \<open>8000\<close>.
\<close>

theorem fields_overlap_counterexample:
  "in_range (borrowCF example_config) \<and> in_range (liquidateCF example_config)
   \<and> in_range (liquidationFactor example_config)
   \<and> percentage (borrowCF example_config) True = Inr 800000000000000000
   \<and> packAssetConfig ''0x10000000000000000000000000000000000000000'' example_config =
       Inr \<lparr>word_a = 59633280636123026860180556640878686901289154617834104187518976,
            word_b = 374144427925720971045560826397477449329616848937451258111\<rparr>
   \<and> take_bit 16 (drop_bit 160 (59633280636123026860180556640878686901289154617834104187518976 :: int))
       = 8001
   \<and> (800000000000000000 :: int) div 10 ^ 14 = 8000"
  by code_simp

subsection \<open>The encoding of a percentage\<close>

text \<open>Rounding a positive value never passes a double below it.\<close>

lemma round_double_ge:
  assumes M: "0 < M" and T: "0 < T" "T < 2 ^ 53" and s: "- 1074 \<le> s"
    and ge: "real_of_int T * 2 powi s \<le> real_of_int M * 2 powi E"
    and fin: "round_double M E = Finite q g"
  shows "real_of_int T * 2 powi s \<le> real_of_int q * 2 powi g"
  using M
proof (cases rule: round_double_pos [of M E])
  case exact
  with fin have "q = M" "g = E"
    by (simp_all split: if_splits)
  with ge show ?thesis by simp
next
  case (rounded k q')
  define G where "G = E + k"
  have pg: "(2::real) powi G = 2 powi E * 2 ^ nat k"
    using powi_split [of E "nat k"] rounded(2) by (simp add: G_def)
  have val: "real_of_int q * 2 powi g = real_of_int q' * 2 powi G"
  proof (cases "q' = 2 ^ 53")
    case True
    with fin rounded(8) have "q = 2 ^ 52" "g = G + 1"
      by (simp_all add: G_def split: if_splits)
    then show ?thesis
      using powi_split [of G 1] by (simp add: True)
  next
    case False
    with fin rounded(8) have "q = q'" "g = G"
      by (simp_all add: G_def split: if_splits)
    then show ?thesis by simp
  qed
  have lo: "real_of_int (M div 2 ^ nat k) * 2 powi G \<le> real_of_int q' * 2 powi G"
    using rounded(3) by (simp add: mult_right_mono)
  have "real_of_int T * 2 powi s \<le> real_of_int (M div 2 ^ nat k) * 2 powi G"
  proof (cases "G \<le> s")
    case True
    define T' where "T' = T * 2 ^ nat (s - G)"
    have B': "real_of_int T * 2 powi s = real_of_int T' * 2 powi G"
      using powi_ge [OF True] by (simp add: T'_def)
    have "real_of_int (T' * 2 ^ nat k) * 2 powi E \<le> real_of_int M * 2 powi E"
      using ge by (simp add: B' pg mult_ac)
    then have "real_of_int (T' * 2 ^ nat k) \<le> real_of_int M"
      by (simp only: mult_le_cancel_right_pos zero_less_power_int zero_less_numeral)
    then have "T' * 2 ^ nat k \<le> M"
      by (simp only: of_int_le_iff)
    then have "T' * 2 ^ nat k div 2 ^ nat k \<le> M div 2 ^ nat k"
      by (intro zdiv_mono1) simp_all
    then have "T' \<le> M div 2 ^ nat k" by simp
    then show ?thesis
      unfolding B' by (simp add: mult_right_mono)
  next
    case False
    then have k: "k = bitlen M - 53"
      using rounded(1) s by (simp add: G_def max_def split: if_splits)
    have "2 ^ nat (bitlen M - 1) \<le> M"
      using bitlen_bounds [OF M] by simp
    moreover have "nat (bitlen M - 1) = 52 + nat k"
      using rounded(2) k by simp
    ultimately have "2 ^ 52 * 2 ^ nat k \<le> M"
      by (simp add: power_add)
    then have "2 ^ 52 * 2 ^ nat k div 2 ^ nat k \<le> M div 2 ^ nat k"
      by (intro zdiv_mono1) simp_all
    then have lo52: "2 ^ 52 \<le> M div 2 ^ nat k" by simp
    have "real_of_int T * 2 powi s < 2 ^ 53 * 2 powi s"
      using T(2) by (simp add: mult_strict_right_mono)
    also have "\<dots> = 2 powi (s + 53)"
      by (simp add: power_int_add)
    also have "\<dots> \<le> 2 powi (G + 52)"
      using False by (intro power_int_increasing) simp_all
    also have "\<dots> = 2 ^ 52 * 2 powi G"
      by (simp add: power_int_add)
    also have "\<dots> \<le> real_of_int (M div 2 ^ nat k) * 2 powi G"
    proof -
      have "real_of_int (2 ^ 52) \<le> real_of_int (M div 2 ^ nat k)"
        using lo52 by (simp only: of_int_le_iff)
      then show ?thesis by (simp add: mult_right_mono)
    qed
    finally show ?thesis by simp
  qed
  with lo show ?thesis unfolding val by linarith
qed

lemma percentage_lower_scaled:
  assumes r: "\<not> number_less one_number (Finite m e)" "\<not> number_less (Finite m e) zero_number"
    and p: "percentage (Finite m e) True = Inr v"
    and T: "0 < T" "T < 2 ^ 53"
    and B: "real_of_int (T * 2 ^ s) \<le> number_value (Finite m e) * 10 ^ 18"
  shows "T * 2 ^ s \<le> v"
proof -
  note v = in_range_value [OF r]
  have m: "0 < m"
  proof (rule ccontr)
    assume "\<not> 0 < m"
    with v(1) have "m = 0" by simp
    with B have "real_of_int (T * 2 ^ s) \<le> 0" by simp
    then have "T * 2 ^ s \<le> 0" by (simp only: of_int_le_0_iff)
    moreover have "0 < T * 2 ^ s" using T(1) by simp
    ultimately show False by simp
  qed
  let ?M = "m * 3814697265625" and ?E = "e + 18"
  let ?x = "real_of_int ?M * 2 powi ?E"
  have x: "?x = number_value (Finite m e) * 10 ^ 18"
    using powi_split [of e 18] by simp
  have le: "?x \<le> real_of_int 7812500000000000 * 2 powi 7"
    unfolding x using v(2) by simp
  have M: "0 < ?M" using m by simp
  from M _ _ _ _ le obtain q g where rd: "round_double ?M ?E = Finite q g"
    by (rule round_double_le) simp_all
  have "real_of_int T * 2 powi (int s) \<le> ?x"
    unfolding x using B by simp
  from round_double_ge [OF M T _ this rd]
  have "real_of_int (T * 2 ^ s) \<le> real_of_int q * 2 powi g" by simp
  then have "\<lfloor>real_of_int (T * 2 ^ s)\<rfloor> \<le> \<lfloor>real_of_int q * 2 powi g\<rfloor>"
    by (rule floor_mono)
  moreover have "percentage (Finite m e) True = Inr \<lfloor>real_of_int q * 2 powi g\<rfloor>"
    using r by (simp add: percentage_def number_1e18_def rd floor_number_value)
  ultimately show ?thesis
    using p by (simp only: floor_of_int sum.inject)
qed

lemma percentage_upper_scaled:
  assumes r: "\<not> number_less one_number (Finite m e)" "\<not> number_less (Finite m e) zero_number"
    and p: "percentage (Finite m e) True = Inr v"
    and T: "0 < T" "T < 2 ^ 53" and s: "s \<le> 971"
    and B: "number_value (Finite m e) * 10 ^ 18 \<le> real_of_int (T * 2 ^ s)"
  shows "v \<le> T * 2 ^ s"
proof (cases "m = 0")
  case True
  have "percentage (Finite m e) True = Inr 0"
    using r by (simp add: percentage_def True number_1e18_def round_double_def floor_number_def)
  with p T(1) show ?thesis by simp
next
  case False
  note v = in_range_value [OF r]
  with False have m: "0 < m" by simp
  let ?M = "m * 3814697265625" and ?E = "e + 18"
  let ?x = "real_of_int ?M * 2 powi ?E"
  have x: "?x = number_value (Finite m e) * 10 ^ 18"
    using powi_split [of e 18] by simp
  have le: "?x \<le> real_of_int T * 2 powi (int s)"
    unfolding x using B by simp
  have M: "0 < ?M" using m by simp
  from M T _ _ le obtain q g where rd: "round_double ?M ?E = Finite q g"
    and val: "real_of_int q * 2 powi g \<le> real_of_int T * 2 powi (int s)"
    by (rule round_double_le) (use s in simp_all)
  from val have "real_of_int q * 2 powi g \<le> real_of_int (T * 2 ^ s)" by simp
  then have "\<lfloor>real_of_int q * 2 powi g\<rfloor> \<le> \<lfloor>real_of_int (T * 2 ^ s)\<rfloor>"
    by (rule floor_mono)
  moreover have "percentage (Finite m e) True = Inr \<lfloor>real_of_int q * 2 powi g\<rfloor>"
    using r by (simp add: percentage_def number_1e18_def rd floor_number_value)
  ultimately show ?thesis
    using p by (simp only: floor_of_int sum.inject)
qed

lemma percentage_exact:
  assumes r: "\<not> number_less one_number (Finite m e)" "\<not> number_less (Finite m e) zero_number"
    and p: "percentage (Finite m e) True = Inr v"
    and T: "0 \<le> T" "T < 2 ^ 53"
    and B: "number_value (Finite m e) * 10 ^ 18 = real_of_int (T * 2 ^ s)"
  shows "v = T * 2 ^ s"
proof (cases "T = 0")
  case True
  with B have "m = 0" by simp
  then have "percentage (Finite m e) True = Inr 0"
    using r by (simp add: percentage_def number_1e18_def round_double_def floor_number_def)
  with p True show ?thesis by simp
next
  case False
  with T(1) have T0: "0 < T" by simp
  note v = in_range_value [OF r]
  have s: "s \<le> 971"
  proof (rule ccontr)
    assume "\<not> s \<le> 971"
    then have "60 \<le> s" by simp
    then have a: "(2::int) ^ 60 \<le> 2 ^ s"
      by (intro power_increasing) simp_all
    have "(1::int) * 2 ^ s \<le> T * 2 ^ s"
      using T0 by (intro mult_right_mono) simp_all
    then have b: "(2::int) ^ s \<le> T * 2 ^ s"
      by (simp only: mult_1)
    from a b have "(2::int) ^ 60 \<le> T * 2 ^ s"
      by (rule order_trans)
    then have "real_of_int (2 ^ 60) \<le> real_of_int (T * 2 ^ s)"
      by (simp only: of_int_le_iff)
    with B v(2) show False by simp
  qed
  have "T * 2 ^ s \<le> v"
    using r p T0 T(2) by (rule percentage_lower_scaled) (simp only: B order_refl)
  moreover have "v \<le> T * 2 ^ s"
    using r p T0 T(2) s by (rule percentage_upper_scaled) (simp only: B order_refl)
  ultimately show ?thesis by simp
qed

text \<open>
  Claim C7, as amended. For a percentage \<open>p\<close> in \<open>[0, 1]\<close> the encoded integer is the floor
  of the double product \<open>p * 1e18\<close> (the exact product rounded to the nearest double, ties
  to even). It lies between \<open>0\<close> and \<open>10^18\<close>, it differs from the exact \<open>p * 10^18\<close> by
  at most 64, and it is the exact product whenever that is itself an integer with a
  53-bit mantissa. Encoding the double nearest \<open>0.8\<close> yields \<open>800000000000000000\<close>.
\<close>

theorem percentage_encoding:
  assumes "in_range p"
  shows "\<exists>v. percentage p True = Inr v
    \<and> floor_number (number_times p number_1e18) = Inr v
    \<and> 0 \<le> v \<and> v \<le> 10 ^ 18
    \<and> \<bar>real_of_int v - number_value p * 10 ^ 18\<bar> \<le> 64
    \<and> (\<forall>T s. 0 \<le> T \<and> T < 2 ^ 53 \<and> number_value p * 10 ^ 18 = real_of_int (T * 2 ^ s)
          \<longrightarrow> v = T * 2 ^ s)"
proof -
  from assms obtain m e where n: "p = Finite m e"
    by (cases p) simp_all
  from assms have r: "\<not> number_less one_number (Finite m e)" "\<not> number_less (Finite m e) zero_number"
    by (simp_all add: n)
  from assms obtain v where v: "percentage p True = Inr v" "0 \<le> v" "v \<le> 10 ^ 18"
    "\<bar>real_of_int v - number_value p * 10 ^ 18\<bar> \<le> 64"
    by (rule percentage_in_range')
  have f: "floor_number (number_times p number_1e18) = Inr v"
    using v(1) r by (simp add: percentage_def n)
  have "\<forall>T s. 0 \<le> T \<and> T < 2 ^ 53 \<and> number_value p * 10 ^ 18 = real_of_int (T * 2 ^ s)
          \<longrightarrow> v = T * 2 ^ s"
    using percentage_exact [OF r v(1) [unfolded n]] unfolding n by blast
  with v f show ?thesis by blast
qed

theorem percentage_encoding_witness:
  "in_range (Finite 7205759403792794 (- 53))
   \<and> percentage (Finite 7205759403792794 (- 53)) True = Inr 800000000000000000
   \<and> \<bar>real_of_int 800000000000000000 - number_value (Finite 7205759403792794 (- 53)) * 10 ^ 18\<bar> \<le> 64
   \<and> in_range (Finite 1 (- 1))
   \<and> number_value (Finite 1 (- 1)) * 10 ^ 18 = real_of_int (3814697265625 * 2 ^ 17)
   \<and> percentage (Finite 1 (- 1)) True = Inr 500000000000000000"
proof -
  have r: "in_range (Finite 7205759403792794 (- 53))" "in_range (Finite 1 (- 1))"
    by (simp_all add: one_number_def zero_number_def)
  have e: "percentage (Finite 7205759403792794 (- 53)) True = Inr 800000000000000000"
    by code_simp
  from percentage_encoding [OF r(1)] e
  have 1: "\<bar>real_of_int 800000000000000000 - number_value (Finite 7205759403792794 (- 53)) * 10 ^ 18\<bar> \<le> 64"
    by auto
  have h: "number_value (Finite 1 (- 1)) * 10 ^ 18 = real_of_int (3814697265625 * 2 ^ 17)"
    by simp
  from percentage_encoding [OF r(2)] obtain v where
      v: "percentage (Finite 1 (- 1)) True = Inr v"
    and ex: "\<forall>T s. 0 \<le> T \<and> T < 2 ^ 53
        \<and> number_value (Finite 1 (- 1)) * 10 ^ 18 = real_of_int (T * 2 ^ s) \<longrightarrow> v = T * 2 ^ s"
    by blast
  from ex [rule_format, of 3814697265625 17] h have "v = 3814697265625 * 2 ^ 17"
    by simp
  with v have 2: "percentage (Finite 1 (- 1)) True = Inr 500000000000000000"
    by simp
  from r e 1 h 2 show ?thesis
    by (intro conjI)
qed

text \<open>
  The encoded integer is not the exact floor in general: for the double nearest \<open>0.07\<close>
  the code yields \<open>70000000000000008\<close>; the floor of the exact product of that double is
  \<open>70000000000000006\<close>, and the floor of \<open>0.07 * 10^18\<close> is \<open>70000000000000000\<close>.
\<close>

theorem encoding_not_exact_counterexample:
  "is_double (Finite 5044031582654956 (- 56))
   \<and> in_range (Finite 5044031582654956 (- 56))
   \<and> \<bar>number_value (Finite 5044031582654956 (- 56)) - 7 / 100\<bar> \<le> 2 powi (- 57)
   \<and> percentage (Finite 5044031582654956 (- 56)) True = Inr 70000000000000008
   \<and> \<lfloor>number_value (Finite 5044031582654956 (- 56)) * 10 ^ 18\<rfloor> = 70000000000000006
   \<and> \<lfloor>(7 / 100 :: real) * 10 ^ 18\<rfloor> = 70000000000000000"
proof -
  have 1: "is_double (Finite 5044031582654956 (- 56))"
    by (simp add: compute_bitlen)
  have 2: "in_range (Finite 5044031582654956 (- 56))"
    by (simp add: one_number_def zero_number_def)
  have 3: "\<bar>number_value (Finite 5044031582654956 (- 56)) - 7 / 100\<bar> \<le> 2 powi (- 57)"
    by (simp add: power_int_minus field_simps)
  have 4: "percentage (Finite 5044031582654956 (- 56)) True = Inr 70000000000000008"
    by code_simp
  have "number_value (Finite 5044031582654956 (- 56)) * 10 ^ 18
      = real_of_int (5044031582654956 * 10 ^ 18) / real_of_int (2 ^ 56)"
    by (simp add: power_int_minus field_simps)
  then have "\<lfloor>number_value (Finite 5044031582654956 (- 56)) * 10 ^ 18\<rfloor>
      = 5044031582654956 * 10 ^ 18 div 2 ^ 56"
    by (simp only: floor_divide_of_int_eq)
  then have 5: "\<lfloor>number_value (Finite 5044031582654956 (- 56)) * 10 ^ 18\<rfloor> = 70000000000000006"
    by simp
  have "(7 / 100 :: real) * 10 ^ 18 = real_of_int 70000000000000000"
    by simp
  then have 6: "\<lfloor>(7 / 100 :: real) * 10 ^ 18\<rfloor> = 70000000000000000"
    by (simp only: floor_of_int)
  from 1 2 3 4 5 6 show ?thesis
    by (intro conjI)
qed

subsection \<open>Packing and unpacking\<close>

lemma word_b_windows:
  fixes feed d c :: int
  assumes "0 \<le> feed" "feed < 2 ^ 160" "0 \<le> d" "d < 2 ^ 8" "0 \<le> c" "c < 2 ^ 88"
  defines "w \<equiv> feed OR push_bit 160 d OR push_bit 168 c"
  shows "take_bit 160 w = feed"
    and "take_bit 8 (drop_bit 160 w) = d"
    and "take_bit 88 (drop_bit 168 w) = c"
    and "w < 2 ^ 256"
proof -
  note below = bit_below [OF assms(1,2)] bit_below [OF assms(3,4)] bit_below [OF assms(5,6)]
  show "take_bit 160 w = feed"
    unfolding w_def by (rule bit_eqI) (auto simp: bit_simps dest: below)
  show "take_bit 8 (drop_bit 160 w) = d"
    unfolding w_def by (rule bit_eqI) (auto simp: bit_simps dest: below)
  show "take_bit 88 (drop_bit 168 w) = c"
    unfolding w_def by (rule bit_eqI) (auto simp: bit_simps dest: below)
  have "take_bit 256 w = w"
    unfolding w_def by (rule bit_eqI) (auto simp: bit_simps dest: below)
  then show "w < 2 ^ 256"
    by (metis take_bit_int_less_exp)
qed

lemma div_times_le:
  fixes b k :: int
  assumes "0 < k"
  shows "b div k * k \<le> b"
  using div_mult_mod_eq [of b k] pos_mod_sign [OF assms, of b] by linarith

text \<open>What descaling loses of a percentage, against the exact value.\<close>

lemma descaled_precision:
  assumes "in_range p" and "percentage p True = Inr b"
  shows "\<bar>real_of_int (b div 10 ^ 14 * 10 ^ 14) - number_value p * 10 ^ 18\<bar> < 10 ^ 14"
proof -
  from assms(1) obtain m e where n: "p = Finite m e"
    by (cases p) simp_all
  from assms(1) have r: "\<not> number_less one_number (Finite m e)" "\<not> number_less (Finite m e) zero_number"
    by (simp_all add: n)
  from assms(1) obtain v where "percentage p True = Inr v" and "0 \<le> v" and "v \<le> 10 ^ 18"
    and "\<bar>real_of_int v - number_value p * 10 ^ 18\<bar> \<le> 64"
    by (rule percentage_in_range')
  with assms(2) have b: "0 \<le> b" "b \<le> 10 ^ 18"
    and err: "\<bar>real_of_int b - number_value p * 10 ^ 18\<bar> \<le> 64"
    by simp_all
  let ?x = "number_value p * 10 ^ 18"
  define j where "j = b div 10 ^ 14"
  have j: "0 \<le> j" "j \<le> 10 ^ 4"
    using descaled_bound(1,2) [OF b] by (simp_all add: j_def)
  have "j * 10 ^ 14 \<le> b"
    unfolding j_def by (rule div_times_le) simp
  then have "real_of_int (j * 10 ^ 14) \<le> real_of_int b"
    by (simp only: of_int_le_iff)
  with err have up: "real_of_int (j * 10 ^ 14) - ?x \<le> 64"
    by linarith
  have low: "?x < real_of_int ((j + 1) * 10 ^ 14)"
  proof (rule ccontr)
    assume "\<not> ?x < real_of_int ((j + 1) * 10 ^ 14)"
    then have ge: "real_of_int ((j + 1) * 10 ^ 14) \<le> ?x" by simp
    have split: "(j + 1) * 10 ^ 14 = (j + 1) * 6103515625 * 2 ^ 14"
      by simp
    have "(j + 1) * 6103515625 * 2 ^ 14 \<le> b"
    proof (rule percentage_lower_scaled [OF r])
      show "percentage (Finite m e) True = Inr b" using assms(2) by (simp add: n)
      show "0 < (j + 1) * 6103515625" using j(1) by simp
      show "(j + 1) * 6103515625 < 2 ^ 53" using j(2) by simp
      show "real_of_int ((j + 1) * 6103515625 * 2 ^ 14) \<le> number_value (Finite m e) * 10 ^ 18"
        using ge unfolding split n .
    qed
    then have "(j + 1) * 10 ^ 14 \<le> b"
      by (simp only: split)
    then have "(j + 1) * 10 ^ 14 div 10 ^ 14 \<le> b div 10 ^ 14"
      by (intro zdiv_mono1) simp_all
    then show False by (simp add: j_def)
  qed
  have "real_of_int ((j + 1) * 10 ^ 14) = real_of_int (j * 10 ^ 14) + 100000000000000"
    by (simp add: algebra_simps)
  with low have "?x < real_of_int (j * 10 ^ 14) + 100000000000000"
    by simp
  with up have "\<bar>real_of_int (j * 10 ^ 14) - ?x\<bar> < 100000000000000"
    by linarith
  then show ?thesis
    unfolding j_def by simp
qed

text \<open>What descaling loses of a supply cap.\<close>

lemma count_precision:
  fixes c :: int and x :: real
  assumes "c = \<lfloor>x\<rfloor>"
  shows "0 \<le> x - real_of_int (c div 10 ^ n * 10 ^ n)"
    and "x - real_of_int (c div 10 ^ n * 10 ^ n) < 10 ^ n"
proof -
  have c: "real_of_int c \<le> x" "x < real_of_int c + 1"
    unfolding assms by linarith+
  have "c div 10 ^ n * 10 ^ n \<le> c"
    by (rule div_times_le) simp
  then have "real_of_int (c div 10 ^ n * 10 ^ n) \<le> real_of_int c"
    by (simp only: of_int_le_iff)
  with c(1) show "0 \<le> x - real_of_int (c div 10 ^ n * 10 ^ n)"
    by linarith
  have "c = c div 10 ^ n * 10 ^ n + c mod 10 ^ n"
    by (rule div_mult_mod_eq [symmetric])
  moreover have "c mod 10 ^ n < 10 ^ n"
    by simp
  ultimately have "c + 1 \<le> c div 10 ^ n * 10 ^ n + 10 ^ n"
    by linarith
  then have "real_of_int (c + 1) \<le> real_of_int (c div 10 ^ n * 10 ^ n + 10 ^ n)"
    by (simp only: of_int_le_iff)
  with c(2) show "x - real_of_int (c div 10 ^ n * 10 ^ n) < 10 ^ n"
    by simp
qed

text \<open>
  Claim C1, as amended. For a valid input whose decimals are below \<open>2^8\<close> and whose supply
  cap, in whole tokens, is below \<open>2^88\<close>, \<open>packAssetConfig\<close> returns two words below
  \<open>2^256\<close>, and unpacking them gives back both addresses and the decimals exactly, each
  percentage at the scale \<open>10^18\<close> within \<open>10^14\<close> of the percentage of the input, and a
  supply cap that is not above that of the input and less than \<open>10^decimals\<close> below it.
\<close>

theorem pack_unpack_roundtrip:
  assumes "valid_input assetAddress assetConfig" and "fits_word_b assetConfig"
  shows "\<exists>w asset feed d.
      packAssetConfig assetAddress assetConfig = Inr w
    \<and> BigInt_string assetAddress = Inr asset
    \<and> BigInt_string (priceFeed assetConfig) = Inr feed
    \<and> BigInt_number (decimals assetConfig) = Inr d
    \<and> 0 \<le> word_a w \<and> word_a w < 2 ^ 256 \<and> 0 \<le> word_b w \<and> word_b w < 2 ^ 256
    \<and> asset_address (unpack w) = asset
    \<and> price_feed_address (unpack w) = feed
    \<and> token_decimals (unpack w) = d
    \<and> \<bar>real_of_int (borrow_factor (unpack w)) - number_value (borrowCF assetConfig) * 10 ^ 18\<bar>
        < 10 ^ 14
    \<and> \<bar>real_of_int (liquidate_factor (unpack w)) - number_value (liquidateCF assetConfig) * 10 ^ 18\<bar>
        < 10 ^ 14
    \<and> \<bar>real_of_int (liquidation_factor (unpack w))
         - number_value (liquidationFactor assetConfig) * 10 ^ 18\<bar> < 10 ^ 14
    \<and> 0 \<le> number_value (supplyCap assetConfig) - real_of_int (supply_cap (unpack w))
    \<and> number_value (supplyCap assetConfig) - real_of_int (supply_cap (unpack w)) < 10 ^ nat d"
proof -
  from assms(1) obtain asset feed d b l f c where
      asset: "BigInt_string assetAddress = Inr asset" "0 \<le> asset" "asset < 2 ^ 160"
    and feed: "BigInt_string (priceFeed assetConfig) = Inr feed" "0 \<le> feed" "feed < 2 ^ 160"
    and d: "BigInt_number (decimals assetConfig) = Inr d" "0 \<le> d"
    and b: "percentage (borrowCF assetConfig) True = Inr b" "0 \<le> b" "b \<le> 10 ^ 18"
    and l: "percentage (liquidateCF assetConfig) True = Inr l" "0 \<le> l" "l \<le> 10 ^ 18"
    and f: "percentage (liquidationFactor assetConfig) True = Inr f" "0 \<le> f" "f \<le> 10 ^ 18"
    and c: "number_cfg (supplyCap assetConfig) = Inr c" "0 \<le> c"
      "c = \<lfloor>number_value (supplyCap assetConfig)\<rfloor>"
    by (rule valid_input_fields)
  from assms(1) have pf: "isAddress (priceFeed assetConfig)"
    and r: "in_range (borrowCF assetConfig)" "in_range (liquidateCF assetConfig)"
      "in_range (liquidationFactor assetConfig)"
    by (simp_all add: valid_input_def)
  define C where "C = c div 10 ^ nat d"
  have C: "0 \<le> C" "C < 2 ^ 88" and d8: "d < 2 ^ 8"
    using assms(2) c(2) by (simp_all add: fits_word_b_def d(1) c(1) C_def BigInt_div_nonneg
        pos_imp_zdiv_nonneg_iff)
  define w where "w = \<lparr>word_a = asset OR push_bit 160 (b div 10 ^ 14) OR push_bit 176 (l div 10 ^ 14)
                 OR push_bit 192 (f div 10 ^ 14),
      word_b = feed OR push_bit 160 d OR push_bit 168 C\<rparr>"
  have p: "packAssetConfig assetAddress assetConfig = Inr w"
    using packAssetConfig_success [OF pf d b(1) l(1) f(1) c(1) asset(1) feed(1)] b(2) l(2) f(2) c(2)
    by (simp add: w_def C_def descale_eq BigInt_div_nonneg)
  note A = word_a_fields [OF asset(2,3) descaled_bound(1,3) [OF b(2,3)] descaled_bound(1,3) [OF l(2,3)]
      descaled_bound(1,3) [OF f(2,3)]]
  note B = word_b_windows [OF feed(2,3) d(2) d8 C]
  have wb0: "0 \<le> word_b w"
    using feed(2) d(2) C(1) by (simp add: w_def)
  have wa: "0 \<le> word_a w" "word_a w < 2 ^ 256"
  proof -
    show "0 \<le> word_a w" using A(6) by (simp add: w_def)
    have "word_a w < 2 ^ 208" using A(7) by (simp add: w_def)
    then show "word_a w < 2 ^ 256" by simp
  qed
  have wb: "word_b w < 2 ^ 256"
    using B(4) by (simp add: w_def)
  have u1: "asset_address (unpack w) = asset" "price_feed_address (unpack w) = feed"
    "token_decimals (unpack w) = d"
    using A(1) B(1,2) by (simp_all add: unpack_def w_def)
  have u2: "borrow_factor (unpack w) = b div 10 ^ 14 * 10 ^ 14"
    "liquidate_factor (unpack w) = l div 10 ^ 14 * 10 ^ 14"
    "liquidation_factor (unpack w) = f div 10 ^ 14 * 10 ^ 14"
    using A(2,3,4) by (simp_all add: unpack_def w_def)
  have u3: "supply_cap (unpack w) = c div 10 ^ nat d * 10 ^ nat d"
    using B(2,3) by (simp add: unpack_def w_def C_def)
  note P = descaled_precision [OF r(1) b(1), folded u2(1)]
    descaled_precision [OF r(2) l(1), folded u2(2)]
    descaled_precision [OF r(3) f(1), folded u2(3)]
  note Q = count_precision [OF c(3), of "nat d", folded u3]
  show ?thesis
    using p asset(1) feed(1) d(1) wa wb0 wb u1 P Q by blast
qed

theorem pack_unpack_roundtrip_witness:
  "valid_input example_asset example_config \<and> fits_word_b example_config
   \<and> packAssetConfig example_asset example_config =
       Inr \<lparr>word_a = 59633280636122546188437638650987570047424899663507149029376001,
            word_b = 374144427925720971045560826397477449329616848937451258111\<rparr>
   \<and> unpack \<lparr>word_a = 59633280636122546188437638650987570047424899663507149029376001,
              word_b = 374144427925720971045560826397477449329616848937451258111\<rparr>
       = \<lparr>asset_address = 0xABCDEF0000000000000000000000000000000001,
          borrow_factor = 800000000000000000,
          liquidate_factor = 850000000000000000,
          liquidation_factor = 950000000000000000,
          price_feed_address = 0xff,
          token_decimals = 6,
          supply_cap = 1000000000000\<rparr>
   \<and> \<bar>real_of_int 800000000000000000 - number_value (borrowCF example_config) * 10 ^ 18\<bar> < 10 ^ 14
   \<and> number_value (supplyCap example_config) - real_of_int 1000000000000 < 10 ^ 6"
proof -
  let ?w = "\<lparr>word_a = 59633280636122546188437638650987570047424899663507149029376001,
            word_b = 374144427925720971045560826397477449329616848937451258111\<rparr>"
  have fits: "fits_word_b example_config"
    by code_simp
  have u: "unpack ?w
       = \<lparr>asset_address = 0xABCDEF0000000000000000000000000000000001,
          borrow_factor = 800000000000000000,
          liquidate_factor = 850000000000000000,
          liquidation_factor = 950000000000000000,
          price_feed_address = 0xff,
          token_decimals = 6,
          supply_cap = 1000000000000\<rparr>"
    by code_simp
  have d: "BigInt_number (decimals example_config) = Inr 6"
    by code_simp
  from pack_unpack_roundtrip [OF valid_example fits] obtain w d' where
      "packAssetConfig example_asset example_config = Inr w"
      and "BigInt_number (decimals example_config) = Inr d'"
      and "\<bar>real_of_int (borrow_factor (unpack w)) - number_value (borrowCF example_config) * 10 ^ 18\<bar>
        < 10 ^ 14"
      and "number_value (supplyCap example_config) - real_of_int (supply_cap (unpack w)) < 10 ^ nat d'"
    by blast
  with pack_example d
  have "\<bar>real_of_int (borrow_factor (unpack ?w)) - number_value (borrowCF example_config) * 10 ^ 18\<bar>
        < 10 ^ 14"
    and "number_value (supplyCap example_config) - real_of_int (supply_cap (unpack ?w)) < 10 ^ nat 6"
    by simp_all
  then have "\<bar>real_of_int 800000000000000000 - number_value (borrowCF example_config) * 10 ^ 18\<bar> < 10 ^ 14"
    and "number_value (supplyCap example_config) - real_of_int 1000000000000 < 10 ^ 6"
    unfolding u by simp_all
  with valid_example fits pack_example u show ?thesis
    by (intro conjI)
qed

text \<open>
  A supply cap of \<open>2^88\<close> tokens with no decimals is a valid input; the word \<open>word_b\<close>
  returned for it is not below \<open>2^256\<close>, and the supply cap unpacked from its 256 bits
  is \<open>0\<close>.
\<close>

theorem supply_cap_lost_counterexample:
  "valid_input example_asset (example_config\<lparr>decimals := Finite 0 0, supplyCap := Finite 1 88\<rparr>)
   \<and> is_double (Finite 1 88)
   \<and> number_value (supplyCap (example_config\<lparr>decimals := Finite 0 0, supplyCap := Finite 1 88\<rparr>))
       = 2 ^ 88
   \<and> packAssetConfig example_asset (example_config\<lparr>decimals := Finite 0 0, supplyCap := Finite 1 88\<rparr>)
       = Inr \<lparr>word_a = 59633280636122546188437638650987570047424899663507149029376001,
              word_b = 115792089237316195423570985008687907853269984665640564039457584007913129640191\<rparr>
   \<and> (2 ^ 256 :: int)
       \<le> 115792089237316195423570985008687907853269984665640564039457584007913129640191
   \<and> token_decimals (unpack \<lparr>word_a = 59633280636122546188437638650987570047424899663507149029376001,
        word_b = 115792089237316195423570985008687907853269984665640564039457584007913129640191\<rparr>)
       = 0
   \<and> supply_cap (unpack \<lparr>word_a = 59633280636122546188437638650987570047424899663507149029376001,
        word_b = 115792089237316195423570985008687907853269984665640564039457584007913129640191\<rparr>)
       = 0"
proof -
  let ?cfg = "example_config\<lparr>decimals := Finite 0 0, supplyCap := Finite 1 88\<rparr>"
  let ?w = "\<lparr>word_a = 59633280636122546188437638650987570047424899663507149029376001,
        word_b = 115792089237316195423570985008687907853269984665640564039457584007913129640191\<rparr>"
  have 1: "valid_input example_asset ?cfg"
    using valid_example by (simp add: valid_input_def is_decimals_def)
  have 2: "is_double (Finite 1 88)"
    by (simp add: compute_bitlen)
  have 3: "number_value (supplyCap ?cfg) = 2 ^ 88"
    by simp
  have 4: "packAssetConfig example_asset ?cfg = Inr ?w"
    by code_simp
  have 5: "(2 ^ 256 :: int)
       \<le> 115792089237316195423570985008687907853269984665640564039457584007913129640191"
    by simp
  have 6: "token_decimals (unpack ?w) = 0" "supply_cap (unpack ?w) = 0"
    by code_simp+
  from 1 2 3 4 5 6 show ?thesis
    by (intro conjI)
qed

end
